theory Spec2Isabelle
  imports Main "HOL-Library.Word" "HOL-Library.Monad_Syntax"
begin

section \<open>Reference-counted heap objects (mem.c)\<close>

text \<open>
  A pointer is an address or \<open>NULL\<close>; \<open>NULL\<close> is \<open>None\<close> of \<open>addr option\<close>.
  The C heap is a partial map from addresses to live objects. Dereferencing \<open>NULL\<close> or
  an address that is not live (never allocated, or freed) is undefined behaviour in C;
  every function of the model that dereferences returns an \<open>option\<close>, and \<open>None\<close>
  stands for that undefined behaviour (or, for the recursive functions, for a recursion
  that never returns).
\<close>

type_synonym addr = nat

text \<open>
  \<open>obj_t\<close> is the hidden header in front of every payload: \<open>int refcount\<close> (a 32-bit
  signed integer, read with \<open>sint\<close>) and the finalizer, a function pointer that may be
  \<open>NULL\<close>. Function pointers are names of type \<open>'f\<close>. The payload that follows the
  header is the extension part of the record.
\<close>

record 'f obj_t =
  refcount :: "32 word"
  p_finalize :: "'f option"

type_synonym ('f, 'z) heap = "addr \<rightharpoonup> ('f, 'z) obj_t_scheme"

text \<open>
  \<open>mem_allocate\<close>: \<open>p_obj\<close> is the block \<open>malloc\<close> returns and \<open>blank\<close> its bytes as
  \<open>malloc\<close> left them; \<open>malloc\<close> never returns a block that is still live. The \<open>size\<close>
  argument is the type of the payload. The count starts at 1.
\<close>

definition mem_allocate ::
  "addr \<Rightarrow> ('f, 'z) obj_t_scheme \<Rightarrow> 'f option \<Rightarrow> ('f, 'z) heap \<Rightarrow> (addr \<times> ('f, 'z) heap) option" where
  "mem_allocate p_obj blank p_destruct_fn h =
     (case h p_obj of
        Some live \<Rightarrow> None
      | None \<Rightarrow> Some (p_obj, h(p_obj \<mapsto> blank\<lparr>refcount := 1, p_finalize := p_destruct_fn\<rparr>)))"

definition mem_retain :: "addr \<Rightarrow> ('f, 'z) heap \<Rightarrow> (addr \<times> ('f, 'z) heap) option" where
  "mem_retain p_obj h =
     (case h p_obj of
        None \<Rightarrow> None
      | Some p_hdr \<Rightarrow> Some (p_obj, h(p_obj \<mapsto> p_hdr\<lparr>refcount := refcount p_hdr + 1\<rparr>)))"

text \<open>
  \<open>mem_release\<close>: \<open>call f p h\<close> runs the function that the pointer \<open>f\<close> names on the
  object \<open>p\<close> in heap \<open>h\<close>; \<open>free\<close> removes the object from the heap.
\<close>

definition mem_release ::
  "('f \<Rightarrow> addr \<Rightarrow> ('f, 'z) heap \<Rightarrow> ('f, 'z) heap option) \<Rightarrow> addr \<Rightarrow> ('f, 'z) heap
     \<Rightarrow> ('f, 'z) heap option" where
  "mem_release call p_obj h =
     (case h p_obj of
        None \<Rightarrow> None
      | Some p_hdr \<Rightarrow>
          let p_hdr = p_hdr\<lparr>refcount := refcount p_hdr - 1\<rparr>; h = h(p_obj \<mapsto> p_hdr) in
          if sint (refcount p_hdr) < 1 then
            (case p_finalize p_hdr of None \<Rightarrow> Some h | Some f \<Rightarrow> call f p_obj h)
              \<bind> (\<lambda>h. Some (h(p_obj := None)))
          else Some h)"

definition mem_num_references :: "addr \<Rightarrow> ('f, 'z) heap \<Rightarrow> 32 word option" where
  "mem_num_references p_obj h = map_option refcount (h p_obj)"

lemma mem_release_mono [partial_function_mono]:
  assumes "\<And>f p h. mono_option (\<lambda>F. call F f p h)"
  shows "mono_option (\<lambda>F. mem_release (call F) p_obj h)"
proof (cases "h p_obj")
  case None
  then show ?thesis by (simp add: mem_release_def option.const_mono)
next
  case (Some hdr)
  show ?thesis
  proof (cases "p_finalize hdr")
    case None
    with Some show ?thesis
      by (simp add: mem_release_def Let_def option.const_mono cong: if_cong)
  next
    case f: (Some f)
    show ?thesis
    proof (cases "sint (refcount hdr - 1) < 1")
      case True
      with Some f show ?thesis
        by (simp add: mem_release_def Let_def) (intro partial_function_mono assms)
    next
      case False
      with Some f show ?thesis
        by (simp add: mem_release_def Let_def option.const_mono)
    qed
  qed
qed

section \<open>The red-black tree (rbt.h, rbt.c)\<close>

datatype rbt_color_t = RED | BLACK

datatype direction_t = LEFT | RIGHT

text \<open>The finalizer rbt.c hands to \<open>mem_allocate\<close> for a node.\<close>

datatype destructor_t = Fn_rbt_node_free

text \<open>
  A node is a heap object: the header and then the fields of \<open>rbt_node_t\<close>. \<open>contents\<close>
  is a \<open>void*\<close> that the tree only hands to the comparator; the model keeps of it the
  integer that the comparator compares (the pointer itself for
  \<open>rbt_default_comparator\<close>, the boxed value for a comparator that unboxes). The
  reference count of the contents object is not part of the model.
\<close>

record rbt_node_t = "destructor_t obj_t" +
  left :: "addr option"
  right :: "addr option"
  parent :: "addr option"
  color :: rbt_color_t
  contents :: int

type_synonym comparator_t = "int \<Rightarrow> int \<Rightarrow> int"

text \<open>
  \<open>rbt_t\<close>: the two fields of the C struct, and the heap \<open>mem\<close> that its node pointers
  point into.
\<close>

record rbt_t =
  mem :: "addr \<rightharpoonup> rbt_node_t"
  root :: "addr option"
  comp :: comparator_t

text \<open>\<open>fld tree p f\<close> reads \<open>p->f\<close>; \<open>store p g tree\<close> writes to the object at \<open>p\<close>.\<close>

definition fld :: "rbt_t \<Rightarrow> addr \<Rightarrow> (rbt_node_t \<Rightarrow> 'a) \<Rightarrow> 'a option" where
  "fld tree p f = map_option f (mem tree p)"

definition store :: "addr \<Rightarrow> (rbt_node_t \<Rightarrow> rbt_node_t) \<Rightarrow> rbt_t \<Rightarrow> rbt_t option" where
  "store p g tree =
     (case mem tree p of
        None \<Rightarrow> None
      | Some n \<Rightarrow> Some (tree\<lparr>mem := (mem tree)(p \<mapsto> g n)\<rparr>))"

text \<open>
  \<open>rbt_node_free\<close>, the finalizer of a node: it releases the children that are not
  \<open>NULL\<close> (and the contents, outside the model).
\<close>

partial_function (option) rbt_node_free ::
  "addr \<Rightarrow> (addr \<rightharpoonup> rbt_node_t) \<Rightarrow> (addr \<rightharpoonup> rbt_node_t) option" where
  [code]: "rbt_node_free v_node h =
     do {
       node \<leftarrow> h v_node;
       h \<leftarrow> (case left node of None \<Rightarrow> Some h
             | Some l \<Rightarrow> mem_release (\<lambda>f. rbt_node_free) l h);
       node \<leftarrow> h v_node;
       (case right node of None \<Rightarrow> Some h
        | Some r \<Rightarrow> mem_release (\<lambda>f. rbt_node_free) r h)
     }"

definition rbt_default_comparator :: comparator_t where
  "rbt_default_comparator a b = (if a = b then 0 else if a < b then -1 else 1)"

text \<open>
  \<open>rbt_node_new\<close>: \<open>blk\<close> is the block \<open>malloc\<close> returns inside \<open>mem_allocate\<close>. The
  fields are set as the code sets them after the allocation.
\<close>

definition rbt_node_new ::
  "int \<Rightarrow> addr \<Rightarrow> (addr \<rightharpoonup> rbt_node_t) \<Rightarrow> (addr \<times> (addr \<rightharpoonup> rbt_node_t)) option" where
  "rbt_node_new cont blk h =
     mem_allocate blk
       \<lparr>refcount = 0, p_finalize = None, left = None, right = None, parent = None,
        color = RED, contents = cont\<rparr>
       (Some Fn_rbt_node_free) h"

text \<open>\<open>rbt_new\<close>: an empty tree; the heap holds none of its nodes yet.\<close>

definition rbt_new :: "comparator_t option \<Rightarrow> rbt_t" where
  "rbt_new comparator =
     \<lparr>mem = Map.empty, root = None,
      comp = (case comparator of Some c \<Rightarrow> c | None \<Rightarrow> rbt_default_comparator)\<rparr>"

text \<open>Leaves are \<open>NULL\<close> and black implicitly.\<close>

definition node_color :: "rbt_t \<Rightarrow> addr option \<Rightarrow> rbt_color_t option" where
  "node_color tree node = (case node of None \<Rightarrow> Some BLACK | Some a \<Rightarrow> fld tree a color)"

definition rotate :: "rbt_t \<Rightarrow> addr \<Rightarrow> direction_t \<Rightarrow> rbt_t option" where
  "rotate tree node direction =
     do {
       edon \<leftarrow> (if direction = LEFT then fld tree node right else fld tree node left);
       (case edon of
          None \<Rightarrow> Some tree
        | Some e \<Rightarrow>
            do {
              par \<leftarrow> fld tree node parent;
              tree \<leftarrow> (case par of
                         None \<Rightarrow> Some (tree\<lparr>root := Some e\<rparr>)
                       | Some p \<Rightarrow>
                           do {
                             pl \<leftarrow> fld tree p left;
                             if pl = Some node then store p (\<lambda>n. n\<lparr>left := Some e\<rparr>) tree
                             else store p (\<lambda>n. n\<lparr>right := Some e\<rparr>) tree
                           });
              par \<leftarrow> fld tree node parent;
              tree \<leftarrow> store e (\<lambda>n. n\<lparr>parent := par\<rparr>) tree;
              tree \<leftarrow> (if direction = LEFT then
                         do {
                           el \<leftarrow> fld tree e left;
                           tree \<leftarrow> store node (\<lambda>n. n\<lparr>right := el\<rparr>) tree;
                           el \<leftarrow> fld tree e left;
                           tree \<leftarrow> (case el of None \<Rightarrow> Some tree
                                    | Some c \<Rightarrow> store c (\<lambda>n. n\<lparr>parent := Some node\<rparr>) tree);
                           store e (\<lambda>n. n\<lparr>left := Some node\<rparr>) tree
                         }
                       else
                         do {
                           er \<leftarrow> fld tree e right;
                           tree \<leftarrow> store node (\<lambda>n. n\<lparr>left := er\<rparr>) tree;
                           er \<leftarrow> fld tree e right;
                           tree \<leftarrow> (case er of None \<Rightarrow> Some tree
                                    | Some c \<Rightarrow> store c (\<lambda>n. n\<lparr>parent := Some node\<rparr>) tree);
                           store e (\<lambda>n. n\<lparr>right := Some node\<rparr>) tree
                         });
              store node (\<lambda>n. n\<lparr>parent := Some e\<rparr>) tree
            })
     }"

text \<open>
  \<open>rbt_ins_rebalance\<close> passes \<open>grandparent\<close> to \<open>rotate\<close>, which dereferences it at
  once: a \<open>NULL\<close> grandparent is \<open>None\<close>.
\<close>

definition rbt_ins_rebalance :: "rbt_t \<Rightarrow> addr \<Rightarrow> direction_t \<Rightarrow> rbt_t option" where
  "rbt_ins_rebalance tree node heavy_side =
     do {
       par \<leftarrow> fld tree node parent;
       grandpar \<leftarrow> (case par of None \<Rightarrow> Some None | Some p \<Rightarrow> fld tree p parent);
       g \<leftarrow> grandpar;
       tree \<leftarrow> rotate tree g (if heavy_side = LEFT then RIGHT else LEFT);
       p \<leftarrow> par;
       tree \<leftarrow> store p (\<lambda>n. n\<lparr>color := BLACK\<rparr>) tree;
       store g (\<lambda>n. n\<lparr>color := RED\<rparr>) tree
     }"

partial_function (option) rbt_ins_recolor :: "rbt_t \<Rightarrow> addr \<Rightarrow> rbt_t option" where
  [code]: "rbt_ins_recolor tree node =
     do {
       par \<leftarrow> fld tree node parent;
       grandpar \<leftarrow> (case par of None \<Rightarrow> Some None | Some p \<Rightarrow> fld tree p parent);
       uncle \<leftarrow> (case grandpar of
                  None \<Rightarrow> Some None
                | Some g \<Rightarrow>
                    do {
                      gl \<leftarrow> fld tree g left;
                      if par = gl then fld tree g right else fld tree g left
                    });
       (case par of
          None \<Rightarrow> store node (\<lambda>n. n\<lparr>color := BLACK\<rparr>) tree
        | Some p \<Rightarrow>
            do {
              pc \<leftarrow> node_color tree par;
              if BLACK = pc then Some tree
              else
                do {
                  uc \<leftarrow> node_color tree uncle;
                  if uc = RED then
                    do {
                      g \<leftarrow> grandpar;
                      tree \<leftarrow> store g (\<lambda>n. n\<lparr>color := RED\<rparr>) tree;
                      tree \<leftarrow> store p (\<lambda>n. n\<lparr>color := BLACK\<rparr>) tree;
                      u \<leftarrow> uncle;
                      tree \<leftarrow> store u (\<lambda>n. n\<lparr>color := BLACK\<rparr>) tree;
                      rbt_ins_recolor tree g
                    }
                  else
                    do {
                      pl \<leftarrow> fld tree p left;
                      let node_side = (if Some node = pl then LEFT else RIGHT);
                      g \<leftarrow> grandpar;
                      gl \<leftarrow> fld tree g left;
                      let parent_side = (if par = gl then LEFT else RIGHT);
                      if node_side \<noteq> parent_side then
                        do {
                          tree \<leftarrow> rotate tree p parent_side;
                          rbt_ins_rebalance tree p parent_side
                        }
                      else rbt_ins_rebalance tree node parent_side
                    }
                }
            })
     }"

partial_function (option) rbt_insert_node :: "rbt_t \<Rightarrow> addr \<Rightarrow> addr option \<Rightarrow> rbt_t option" where
  [code]: "rbt_insert_node tree node par =
     (case par of
        None \<Rightarrow> rbt_ins_recolor (tree\<lparr>root := Some node\<rparr>) node
      | Some p \<Rightarrow>
          do {
            nc \<leftarrow> fld tree node contents;
            pc \<leftarrow> fld tree p contents;
            if comp tree nc pc < 0 then
              do {
                pl \<leftarrow> fld tree p left;
                (case pl of
                   Some l \<Rightarrow> rbt_insert_node tree node (Some l)
                 | None \<Rightarrow>
                     do {
                       tree \<leftarrow> store node (\<lambda>n. n\<lparr>parent := Some p\<rparr>) tree;
                       tree \<leftarrow> store p (\<lambda>n. n\<lparr>left := Some node\<rparr>) tree;
                       rbt_ins_recolor tree node
                     })
              }
            else
              do {
                pr \<leftarrow> fld tree p right;
                (case pr of
                   Some r \<Rightarrow> rbt_insert_node tree node (Some r)
                 | None \<Rightarrow>
                     do {
                       tree \<leftarrow> store node (\<lambda>n. n\<lparr>parent := Some p\<rparr>) tree;
                       tree \<leftarrow> store p (\<lambda>n. n\<lparr>right := Some node\<rparr>) tree;
                       rbt_ins_recolor tree node
                     })
              }
          })"

text \<open>\<open>rbt_insert\<close> returns the new node and the tree; \<open>blk\<close> is the block \<open>malloc\<close> returns.\<close>

definition rbt_insert :: "rbt_t \<Rightarrow> int \<Rightarrow> addr \<Rightarrow> (addr \<times> rbt_t) option" where
  "rbt_insert tree val blk =
     do {
       (new_node, h) \<leftarrow> rbt_node_new val blk (mem tree);
       tree \<leftarrow> rbt_insert_node (tree\<lparr>mem := h\<rparr>) new_node (root tree);
       Some (new_node, tree)
     }"

partial_function (option) rbt_lookup_node :: "rbt_t \<Rightarrow> addr option \<Rightarrow> int \<Rightarrow> addr option option" where
  [code]: "rbt_lookup_node tree node val =
     (case node of
        None \<Rightarrow> Some None
      | Some a \<Rightarrow>
          do {
            k \<leftarrow> fld tree a contents;
            let c = comp tree val k;
            if c = 0 then Some (Some a)
            else if c > 0 then do { r \<leftarrow> fld tree a right; rbt_lookup_node tree r val }
            else if c < 0 then do { l \<leftarrow> fld tree a left; rbt_lookup_node tree l val }
            else Some None
          })"

definition rbt_lookup :: "rbt_t \<Rightarrow> int \<Rightarrow> addr option option" where
  "rbt_lookup tree val = rbt_lookup_node tree (root tree) val"

text \<open>The node has a count -1 of black nodes to leaves relative to the rest of the tree.\<close>

partial_function (option) rbt_del_rebalance :: "rbt_t \<Rightarrow> addr \<Rightarrow> rbt_t option" where
  [code]: "rbt_del_rebalance tree node =
     do {
       par \<leftarrow> fld tree node parent;
       (case par of
          None \<Rightarrow> store node (\<lambda>n. n\<lparr>color := BLACK\<rparr>) tree
        | Some p \<Rightarrow>
            do {
              pl \<leftarrow> fld tree p left;
              let node_side = (if Some node = pl then LEFT else RIGHT);
              sib \<leftarrow> (if node_side = LEFT then fld tree p right else fld tree p left);
              inside_nibling \<leftarrow>
                (case sib of None \<Rightarrow> Some None
                 | Some s \<Rightarrow> if node_side = LEFT then fld tree s left else fld tree s right);
              outside_nibling \<leftarrow>
                (case sib of None \<Rightarrow> Some None
                 | Some s \<Rightarrow> if node_side = LEFT then fld tree s right else fld tree s left);
              sc \<leftarrow> node_color tree sib;
              if RED = sc then
                do {
                  tree \<leftarrow> rotate tree p node_side;
                  tree \<leftarrow> store p (\<lambda>n. n\<lparr>color := RED\<rparr>) tree;
                  s \<leftarrow> sib;
                  tree \<leftarrow> store s (\<lambda>n. n\<lparr>color := BLACK\<rparr>) tree;
                  rbt_del_rebalance tree node
                }
              else
                do {
                  ic \<leftarrow> node_color tree inside_nibling;
                  oc \<leftarrow> node_color tree outside_nibling;
                  if BLACK = ic \<and> BLACK = oc then
                    do {
                      s \<leftarrow> sib;
                      tree \<leftarrow> store s (\<lambda>n. n\<lparr>color := RED\<rparr>) tree;
                      pc \<leftarrow> node_color tree par;
                      if RED = pc then store p (\<lambda>n. n\<lparr>color := BLACK\<rparr>) tree
                      else rbt_del_rebalance tree p
                    }
                  else if BLACK = oc then
                    do {
                      s \<leftarrow> sib;
                      tree \<leftarrow> rotate tree s (if node_side = LEFT then RIGHT else LEFT);
                      tree \<leftarrow> store s (\<lambda>n. n\<lparr>color := RED\<rparr>) tree;
                      i \<leftarrow> inside_nibling;
                      tree \<leftarrow> store i (\<lambda>n. n\<lparr>color := BLACK\<rparr>) tree;
                      rbt_del_rebalance tree node
                    }
                  else
                    do {
                      tree \<leftarrow> rotate tree p node_side;
                      s \<leftarrow> sib;
                      pcol \<leftarrow> fld tree p color;
                      tree \<leftarrow> store s (\<lambda>n. n\<lparr>color := pcol\<rparr>) tree;
                      tree \<leftarrow> store p (\<lambda>n. n\<lparr>color := BLACK\<rparr>) tree;
                      out \<leftarrow> outside_nibling;
                      store out (\<lambda>n. n\<lparr>color := BLACK\<rparr>) tree
                    }
                }
            })
     }"

partial_function (option) rightmost_descendent :: "rbt_t \<Rightarrow> addr \<Rightarrow> addr option" where
  [code]: "rightmost_descendent tree node =
     do {
       r \<leftarrow> fld tree node right;
       (case r of Some r' \<Rightarrow> rightmost_descendent tree r' | None \<Rightarrow> Some node)
     }"

text \<open>
  \<open>rbt_delete_node\<close>. The local \<open>parent\<close> is read once on entry (\<open>par\<close>); the branch for
  at most one child reads it again after \<open>rbt_del_rebalance\<close>, the branch for two
  children does not read it again after the recursive call.
\<close>

partial_function (option) rbt_delete_node :: "rbt_t \<Rightarrow> addr \<Rightarrow> rbt_t option" where
  [code]: "rbt_delete_node tree node =
     do {
       par \<leftarrow> fld tree node parent;
       l \<leftarrow> fld tree node left;
       r \<leftarrow> fld tree node right;
       tree \<leftarrow>
         (if l \<noteq> None \<and> r \<noteq> None then
            do {
              l' \<leftarrow> l;
              replacement \<leftarrow> rightmost_descendent tree l';
              (kept, h) \<leftarrow> mem_retain replacement (mem tree);
              tree \<leftarrow> rbt_delete_node (tree\<lparr>mem := h\<rparr>) replacement;
              l \<leftarrow> fld tree node left;
              tree \<leftarrow> (case l of None \<Rightarrow> Some tree
                       | Some c \<Rightarrow> store c (\<lambda>n. n\<lparr>parent := Some replacement\<rparr>) tree);
              r \<leftarrow> fld tree node right;
              tree \<leftarrow> (case r of None \<Rightarrow> Some tree
                       | Some c \<Rightarrow> store c (\<lambda>n. n\<lparr>parent := Some replacement\<rparr>) tree);
              l \<leftarrow> fld tree node left;
              tree \<leftarrow> store replacement (\<lambda>n. n\<lparr>left := l\<rparr>) tree;
              r \<leftarrow> fld tree node right;
              tree \<leftarrow> store replacement (\<lambda>n. n\<lparr>right := r\<rparr>) tree;
              np \<leftarrow> fld tree node parent;
              tree \<leftarrow> store replacement (\<lambda>n. n\<lparr>parent := np\<rparr>) tree;
              ncol \<leftarrow> fld tree node color;
              tree \<leftarrow> store replacement (\<lambda>n. n\<lparr>color := ncol\<rparr>) tree;
              (case par of
                 None \<Rightarrow> Some (tree\<lparr>root := Some replacement\<rparr>)
               | Some p \<Rightarrow>
                   do {
                     pl \<leftarrow> fld tree p left;
                     if Some node = pl then store p (\<lambda>n. n\<lparr>left := Some replacement\<rparr>) tree
                     else store p (\<lambda>n. n\<lparr>right := Some replacement\<rparr>) tree
                   })
            }
          else
            do {
              nc \<leftarrow> node_color tree (Some node);
              (par, child, tree) \<leftarrow>
                (if RED = nc then
                   do {
                     p \<leftarrow> par;
                     pl \<leftarrow> fld tree p left;
                     tree \<leftarrow> (if Some node = pl then store p (\<lambda>n. n\<lparr>left := None\<rparr>) tree
                              else store p (\<lambda>n. n\<lparr>right := None\<rparr>) tree);
                     Some (par, None, tree)
                   }
                 else
                   do {
                     l \<leftarrow> fld tree node left;
                     lc \<leftarrow> node_color tree l;
                     red_child \<leftarrow>
                       (if RED = lc then Some True
                        else do {
                          r \<leftarrow> fld tree node right;
                          rc \<leftarrow> node_color tree r;
                          Some (RED = rc)
                        });
                     if red_child then
                       do {
                         l \<leftarrow> fld tree node left;
                         child \<leftarrow> (if l \<noteq> None then Some l else fld tree node right);
                         c \<leftarrow> child;
                         tree \<leftarrow> store c (\<lambda>n. n\<lparr>color := BLACK\<rparr>) tree;
                         Some (par, child, tree)
                       }
                     else
                       do {
                         tree \<leftarrow> rbt_del_rebalance tree node;
                         par \<leftarrow> fld tree node parent;
                         l \<leftarrow> fld tree node left;
                         child \<leftarrow> (if l \<noteq> None then Some l else fld tree node right);
                         Some (par, child, tree)
                       }
                   });
              tree \<leftarrow> (case child of None \<Rightarrow> Some tree
                       | Some c \<Rightarrow> store c (\<lambda>n. n\<lparr>parent := par\<rparr>) tree);
              (case par of
                 None \<Rightarrow> Some (tree\<lparr>root := child\<rparr>)
               | Some p \<Rightarrow>
                   do {
                     pr \<leftarrow> fld tree p right;
                     if Some node = pr then store p (\<lambda>n. n\<lparr>right := child\<rparr>) tree
                     else store p (\<lambda>n. n\<lparr>left := child\<rparr>) tree
                   })
            });
       tree \<leftarrow> store node (\<lambda>n. n\<lparr>left := None\<rparr>) tree;
       tree \<leftarrow> store node (\<lambda>n. n\<lparr>right := None\<rparr>) tree;
       tree \<leftarrow> store node (\<lambda>n. n\<lparr>parent := None\<rparr>) tree;
       h \<leftarrow> mem_release (\<lambda>f. rbt_node_free) node (mem tree);
       Some (tree\<lparr>mem := h\<rparr>)
     }"

definition rbt_delete :: "rbt_t \<Rightarrow> int \<Rightarrow> rbt_t option" where
  "rbt_delete tree val =
     do {
       doomed \<leftarrow> rbt_lookup tree val;
       (case doomed of None \<Rightarrow> Some tree | Some d \<Rightarrow> rbt_delete_node tree d)
     }"

subsection \<open>The validator (rbt.c, for testing)\<close>

text \<open>
  Modelled from the spec: the declaration of \<open>rbt_status_t\<close> is not in rbt.h. The spec's
  validator returns an enumerated status identifying the first structural violation
  found; the values are the names that rbt.c assigns.
\<close>

datatype rbt_status_t =
  OK | UNKNOWN_COLOR | RED_WITH_RED_CHILD | OUT_OF_ORDER | SELF_REFERENCE
  | BAD_PARENT_POINTER | BAD_ROOT_COLOR | BLACK_NODES_UNBALANCED

text \<open>If the path to the left differs from the path to the right, the result is -1.\<close>

partial_function (option) count_black_nodes_to_leaf :: "rbt_t \<Rightarrow> addr option \<Rightarrow> int option" where
  [code]: "count_black_nodes_to_leaf tree node =
     (case node of
        None \<Rightarrow> Some 0
      | Some a \<Rightarrow>
          do {
            l \<leftarrow> fld tree a left;
            leftcount \<leftarrow> count_black_nodes_to_leaf tree l;
            r \<leftarrow> fld tree a right;
            rightcount \<leftarrow> count_black_nodes_to_leaf tree r;
            c \<leftarrow> fld tree a color;
            Some (if leftcount \<noteq> rightcount then - 1
                  else if c = BLACK then leftcount + 1
                  else leftcount)
          })"

text \<open>
  \<open>rbt_check_node\<close>. \<open>neg1\<close> is \<open>mem_box(-1)\<close>, allocated on entry and released on exit;
  the comparator sees the value -1. The conjunctions are evaluated left to right and
  stop at the first false conjunct, as \<open>&&\<close> does.
\<close>

partial_function (option) rbt_check_node ::
  "rbt_t \<Rightarrow> addr option \<Rightarrow> int \<Rightarrow> int \<Rightarrow> rbt_status_t option" where
  [code]: "rbt_check_node tree node min_val max_val =
     (let neg1 = - 1 in
      case node of
        None \<Rightarrow> Some OK
      | Some a \<Rightarrow>
          do {
            n \<leftarrow> mem tree a;
            ret \<leftarrow>
              (if color n \<noteq> RED \<and> color n \<noteq> BLACK then Some UNKNOWN_COLOR
               else
                 do {
                   both_red \<leftarrow>
                     (if color n = RED then
                        do {
                          lc \<leftarrow> node_color tree (left n);
                          if lc \<noteq> BLACK then
                            do { rc \<leftarrow> node_color tree (right n); Some (rc \<noteq> BLACK) }
                          else Some False
                        }
                      else Some False);
                   if both_red then Some RED_WITH_RED_CHILD
                   else if comp tree min_val neg1 > 0 \<and> comp tree (contents n) min_val < 0
                     then Some OUT_OF_ORDER
                   else if comp tree max_val neg1 > 0 \<and> comp tree (contents n) max_val > 0
                     then Some OUT_OF_ORDER
                   else if left n = Some a \<or> right n = Some a then Some SELF_REFERENCE
                   else
                     do {
                       bad_left \<leftarrow>
                         (case left n of None \<Rightarrow> Some False
                          | Some l \<Rightarrow> do { lp \<leftarrow> fld tree l parent; Some (lp \<noteq> Some a) });
                       if bad_left then Some BAD_PARENT_POINTER
                       else
                         do {
                           bad_right \<leftarrow>
                             (case right n of None \<Rightarrow> Some False
                              | Some r \<Rightarrow> do { rp \<leftarrow> fld tree r parent; Some (rp \<noteq> Some a) });
                           if bad_right then Some BAD_PARENT_POINTER else Some OK
                         }
                     }
                 });
            ret \<leftarrow> (if ret = OK then rbt_check_node tree (left n) min_val (contents n)
                    else Some ret);
            ret \<leftarrow> (if ret = OK then rbt_check_node tree (right n) (contents n) max_val
                    else Some ret);
            Some ret
          })"

text \<open>\<open>rbt_check_status\<close>: the argument is the pointer to the tree, which may be \<open>NULL\<close>.\<close>

definition rbt_check_status :: "rbt_t option \<Rightarrow> rbt_status_t option" where
  "rbt_check_status tree_ptr =
     (let neg1 = - 1 in
      case tree_ptr of
        None \<Rightarrow> Some OK
      | Some tree \<Rightarrow>
          do {
            ret \<leftarrow> rbt_check_node tree (root tree) neg1 neg1;
            rp \<leftarrow> (case root tree of None \<Rightarrow> Some None | Some r \<Rightarrow> fld tree r parent);
            let ret = (if ret = OK \<and> root tree \<noteq> None \<and> rp \<noteq> None
                       then BAD_PARENT_POINTER else ret);
            rc \<leftarrow> node_color tree (root tree);
            let ret = (if ret = OK \<and> rc \<noteq> BLACK then BAD_ROOT_COLOR else ret);
            cnt \<leftarrow> count_black_nodes_to_leaf tree (root tree);
            let ret = (if ret = OK \<and> cnt = - 1 then BLACK_NODES_UNBALANCED else ret);
            Some ret
          })"

subsection \<open>Sequences of public operations\<close>

text \<open>
  A caller's program: inserts (each with the block that \<open>malloc\<close> hands out for the new
  node) and deletes, run in order from a tree. It stops with \<open>None\<close> at the first
  operation that has no defined result.
\<close>

datatype rbt_op = Insert int addr | Delete int

fun rbt_apply :: "rbt_t \<Rightarrow> rbt_op \<Rightarrow> rbt_t option" where
  "rbt_apply tree (Insert v blk) = map_option snd (rbt_insert tree v blk)"
| "rbt_apply tree (Delete v) = rbt_delete tree v"

fun rbt_run :: "rbt_t \<Rightarrow> rbt_op list \<Rightarrow> rbt_t option" where
  "rbt_run tree [] = Some tree"
| "rbt_run tree (x # xs) = rbt_apply tree x \<bind> (\<lambda>tree. rbt_run tree xs)"

text \<open>A comparator that a caller supplies: it unboxes both contents and compares the integers.\<close>

definition unbox_comparator :: comparator_t where
  "unbox_comparator a b = (if a < b then - 1 else if a = b then 0 else 1)"

subsection \<open>Example inputs\<close>

text \<open>
  Two trees written out node by node: the tree that inserting 20, 10, 30 builds, and a tree
  in which the red node 2 has the red child 3.
\<close>

definition example_tree :: rbt_t where
  "example_tree =
     \<lparr>mem = [1 \<mapsto> \<lparr>refcount = 1, p_finalize = Some Fn_rbt_node_free, left = Some 2,
                     right = Some 3, parent = None, color = BLACK, contents = 20\<rparr>,
              2 \<mapsto> \<lparr>refcount = 1, p_finalize = Some Fn_rbt_node_free, left = None,
                     right = None, parent = Some 1, color = RED, contents = 10\<rparr>,
              3 \<mapsto> \<lparr>refcount = 1, p_finalize = Some Fn_rbt_node_free, left = None,
                     right = None, parent = Some 1, color = RED, contents = 30\<rparr>],
      root = Some 1, comp = unbox_comparator\<rparr>"

definition red_red_tree :: rbt_t where
  "red_red_tree =
     \<lparr>mem = [1 \<mapsto> \<lparr>refcount = 1, p_finalize = Some Fn_rbt_node_free, left = Some 2,
                     right = None, parent = None, color = BLACK, contents = 10\<rparr>,
              2 \<mapsto> \<lparr>refcount = 1, p_finalize = Some Fn_rbt_node_free, left = Some 3,
                     right = None, parent = Some 1, color = RED, contents = 5\<rparr>,
              3 \<mapsto> \<lparr>refcount = 1, p_finalize = Some Fn_rbt_node_free, left = None,
                     right = None, parent = Some 2, color = RED, contents = 3\<rparr>],
      root = Some 1, comp = unbox_comparator\<rparr>"

section \<open>The pointer structure as a tree\<close>

text \<open>
  A \<open>shape\<close> is the binary tree that the \<open>left\<close> and \<open>right\<close> pointers draw, with the
  address of a node at each position; \<open>nodes\<close> is its in-order traversal and \<open>top\<close> the
  pointer to it. \<open>linked h par t\<close> says that heap \<open>h\<close> holds exactly this structure below
  a parent \<open>par\<close>: every node of \<open>t\<close> is live, its \<open>left\<close> and \<open>right\<close> point to its
  subtrees, and its \<open>parent\<close> back-reference is its structural parent. \<open>tree_shape\<close>
  adds that the root pointer is the top and that no address occurs twice.
\<close>

datatype shape = Leaf | Node shape addr shape

fun nodes :: "shape \<Rightarrow> addr list" where
  "nodes Leaf = []"
| "nodes (Node l a r) = nodes l @ a # nodes r"

fun top :: "shape \<Rightarrow> addr option" where
  "top Leaf = None"
| "top (Node l a r) = Some a"

fun linked :: "(addr \<rightharpoonup> rbt_node_t) \<Rightarrow> addr option \<Rightarrow> shape \<Rightarrow> bool" where
  "linked h par Leaf = True"
| "linked h par (Node l a r) =
     (case h a of
        None \<Rightarrow> False
      | Some n \<Rightarrow> left n = top l \<and> right n = top r \<and> parent n = par \<and>
                  linked h (Some a) l \<and> linked h (Some a) r)"

definition links :: "rbt_node_t \<Rightarrow> addr option \<times> addr option \<times> addr option" where
  "links n = (left n, right n, parent n)"

fun depth :: "shape \<Rightarrow> addr \<Rightarrow> nat" where
  "depth Leaf a = 0"
| "depth (Node l x r) a =
     (if a = x then 0 else if a \<in> set (nodes l) then Suc (depth l a) else Suc (depth r a))"

fun rot :: "direction_t \<Rightarrow> shape \<Rightarrow> shape" where
  "rot LEFT (Node l a (Node m e r)) = Node (Node l a m) e r"
| "rot RIGHT (Node (Node l e m) a r) = Node l e (Node m a r)"
| "rot d t = t"

fun rot_at :: "direction_t \<Rightarrow> addr \<Rightarrow> shape \<Rightarrow> shape" where
  "rot_at d a Leaf = Leaf"
| "rot_at d a (Node l x r) =
     (if x = a then rot d (Node l x r) else Node (rot_at d a l) x (rot_at d a r))"

definition tree_shape :: "rbt_t \<Rightarrow> shape \<Rightarrow> bool" where
  "tree_shape tree t \<longleftrightarrow> root tree = top t \<and> linked (mem tree) None t \<and> distinct (nodes t)"

definition example_shape :: shape where
  "example_shape = Node (Node Leaf 2 Leaf) 1 (Node Leaf 3 Leaf)"

text \<open>
  The key of a node is its contents as the comparator sees them. A tree is \<open>ordered\<close>
  when its in-order traversal is non-decreasing under its comparator. The comparator
  contract of the interface: the sign of \<open>c a b\<close> is the opposite of the sign of
  \<open>c b a\<close>, and "not greater" is transitive.
\<close>

definition key :: "rbt_t \<Rightarrow> addr \<Rightarrow> int" where
  "key tree a = (case mem tree a of None \<Rightarrow> 0 | Some n \<Rightarrow> contents n)"

definition ordered :: "rbt_t \<Rightarrow> shape \<Rightarrow> bool" where
  "ordered tree t \<longleftrightarrow>
     sorted_wrt (\<lambda>a b. comp tree (key tree a) (key tree b) \<le> 0) (nodes t)"

definition total_order_comparator :: "comparator_t \<Rightarrow> bool" where
  "total_order_comparator c \<longleftrightarrow>
     (\<forall>a b. (c a b < 0) = (0 < c b a)) \<and> (\<forall>a b d. c a b \<le> 0 \<and> c b d \<le> 0 \<longrightarrow> c a d \<le> 0)"

text \<open>
  \<open>rbt_wf\<close>: the pointers form a shape, the tree is ordered and the root is \<open>BLACK\<close>
  (or the tree is empty).
\<close>

definition rbt_wf :: "rbt_t \<Rightarrow> shape \<Rightarrow> bool" where
  "rbt_wf tree t \<longleftrightarrow>
     tree_shape tree t \<and> ordered tree t \<and> node_color tree (root tree) = Some BLACK"

text \<open>
  \<open>same_data\<close> and \<open>same_fields\<close> compare two states object by object: the contents and
  counts (and for \<open>same_fields\<close> the colors) are the same, and so are the live addresses.
\<close>

definition same_data :: "rbt_t \<Rightarrow> rbt_t \<Rightarrow> bool" where
  "same_data tree tree' \<longleftrightarrow>
     comp tree' = comp tree \<and>
     (\<forall>a. map_option contents (mem tree' a) = map_option contents (mem tree a) \<and>
          map_option refcount (mem tree' a) = map_option refcount (mem tree a))"

definition same_fields :: "(addr \<rightharpoonup> rbt_node_t) \<Rightarrow> (addr \<rightharpoonup> rbt_node_t) \<Rightarrow> bool" where
  "same_fields h h' \<longleftrightarrow>
     (\<forall>a. map_option contents (h' a) = map_option contents (h a) \<and>
          map_option color (h' a) = map_option color (h a) \<and>
          map_option refcount (h' a) = map_option refcount (h a))"

text \<open>
  \<open>ins_shape\<close> is the shape after the descent of \<open>rbt_insert_node\<close>: the new node \<open>b\<close>
  with key \<open>k\<close> goes to the left of a node when the comparator says "less", and to the
  right otherwise, and becomes a leaf child.
\<close>

fun ins_shape :: "rbt_t \<Rightarrow> int \<Rightarrow> addr \<Rightarrow> shape \<Rightarrow> shape" where
  "ins_shape tree k b Leaf = Node Leaf b Leaf"
| "ins_shape tree k b (Node l x r) =
     (if comp tree k (key tree x) < 0 then Node (ins_shape tree k b l) x r
      else Node l x (ins_shape tree k b r))"

section \<open>The reference-count protocol\<close>

lemma mem_allocate_count:
  "h p = None \<Longrightarrow>
     mem_allocate p blank fin h = Some (p, h(p \<mapsto> blank\<lparr>refcount := 1, p_finalize := fin\<rparr>))"
  by (simp add: mem_allocate_def)

lemma mem_retain_count:
  "h p = Some hdr \<Longrightarrow>
     mem_retain p h = Some (p, h(p \<mapsto> hdr\<lparr>refcount := refcount hdr + 1\<rparr>))"
  by (simp add: mem_retain_def)

lemma mem_release_count:
  assumes "h p = Some hdr"
  shows "mem_release call p h =
     (if sint (refcount hdr - 1) < 1
      then (case p_finalize hdr of
              None \<Rightarrow> Some (h(p \<mapsto> hdr\<lparr>refcount := refcount hdr - 1\<rparr>))
            | Some f \<Rightarrow> call f p (h(p \<mapsto> hdr\<lparr>refcount := refcount hdr - 1\<rparr>)))
           \<bind> (\<lambda>h'. Some (h'(p := None)))
      else Some (h(p \<mapsto> hdr\<lparr>refcount := refcount hdr - 1\<rparr>)))"
  using assms by (simp add: mem_release_def Let_def)

lemma mem_allocate_then_retain:
  fixes h :: "('f, 'z) heap"
  assumes "h p = None"
  shows "mem_retain p (h(p \<mapsto> blank\<lparr>refcount := 1, p_finalize := fin\<rparr>))
           = Some (p, h(p \<mapsto> blank\<lparr>refcount := 2, p_finalize := fin\<rparr>))"
  by (cases blank) (simp add: mem_retain_def)

lemma mem_release_twice_retained:
  fixes h :: "('f, 'z) heap"
  shows "mem_release call p (h(p \<mapsto> blank\<lparr>refcount := 2, p_finalize := fin\<rparr>))
           = Some (h(p \<mapsto> blank\<lparr>refcount := 1, p_finalize := fin\<rparr>))"
  by (cases blank) (simp add: mem_release_def Let_def)

lemma mem_release_last:
  fixes h :: "('f, 'z) heap"
  shows "mem_release call p (h(p \<mapsto> blank\<lparr>refcount := 1, p_finalize := fin\<rparr>)) =
           (case fin of None \<Rightarrow> Some (h(p \<mapsto> blank\<lparr>refcount := 0, p_finalize := fin\<rparr>))
            | Some f \<Rightarrow> call f p (h(p \<mapsto> blank\<lparr>refcount := 0, p_finalize := fin\<rparr>)))
           \<bind> (\<lambda>h'. Some (h'(p := None)))"
  by (cases blank; cases fin) (simp_all add: mem_release_def Let_def)

lemma mem_release_last_freed:
  fixes h :: "('f, 'z) heap"
  assumes "mem_release call p (h(p \<mapsto> blank\<lparr>refcount := 1, p_finalize := fin\<rparr>)) = Some h3"
  shows "h3 p = None"
  using assms unfolding mem_release_last by (auto simp: bind_eq_Some_conv)

text \<open>
  C5: \<open>mem_allocate\<close> sets the count of the new object to 1; on a live object
  \<open>mem_num_references\<close> returns the count, \<open>mem_retain\<close> adds 1 to it and returns the same
  handle, and \<open>mem_release\<close> subtracts 1 and, exactly when the new count is below 1, calls
  the finalizer if there is one and then frees the object. An object that is allocated
  and retained once has count 2; the first release leaves it live with count 1, and the
  second release frees it.
\<close>

theorem mem_refcount_protocol:
  fixes h :: "('f, 'z) heap"
  shows "(h p = None \<longrightarrow>
            mem_allocate p blank fin h = Some (p, h(p \<mapsto> blank\<lparr>refcount := 1, p_finalize := fin\<rparr>))) \<and>
         (\<forall>hdr. h p = Some hdr \<longrightarrow>
            mem_num_references p h = Some (refcount hdr) \<and>
            mem_retain p h = Some (p, h(p \<mapsto> hdr\<lparr>refcount := refcount hdr + 1\<rparr>)) \<and>
            mem_release call p h =
              (if sint (refcount hdr - 1) < 1
               then (case p_finalize hdr of
                       None \<Rightarrow> Some (h(p \<mapsto> hdr\<lparr>refcount := refcount hdr - 1\<rparr>))
                     | Some f \<Rightarrow> call f p (h(p \<mapsto> hdr\<lparr>refcount := refcount hdr - 1\<rparr>)))
                    \<bind> (\<lambda>h'. Some (h'(p := None)))
               else Some (h(p \<mapsto> hdr\<lparr>refcount := refcount hdr - 1\<rparr>)))) \<and>
         (h p = None \<longrightarrow>
            (\<exists>h1 h2.
               mem_allocate p blank fin h = Some (p, h1) \<and>
               mem_retain p h1 = Some (p, h2) \<and>
               mem_num_references p h2 = Some 2 \<and>
               mem_release call p h2 = Some h1 \<and> h1 p \<noteq> None \<and>
               mem_num_references p h1 = Some 1 \<and>
               mem_release call p h1 =
                 (case fin of
                    None \<Rightarrow> Some (h(p \<mapsto> blank\<lparr>refcount := 0, p_finalize := fin\<rparr>))
                  | Some f \<Rightarrow> call f p (h(p \<mapsto> blank\<lparr>refcount := 0, p_finalize := fin\<rparr>)))
                 \<bind> (\<lambda>h'. Some (h'(p := None))) \<and>
               (\<forall>h3. mem_release call p h1 = Some h3 \<longrightarrow> h3 p = None)))"
proof (intro conjI allI impI)
  assume "h p = None"
  then show "mem_allocate p blank fin h = Some (p, h(p \<mapsto> blank\<lparr>refcount := 1, p_finalize := fin\<rparr>))"
    by (rule mem_allocate_count)
next
  fix hdr assume "h p = Some hdr"
  then show "mem_num_references p h = Some (refcount hdr)"
    by (simp add: mem_num_references_def)
next
  fix hdr assume "h p = Some hdr"
  then show "mem_retain p h = Some (p, h(p \<mapsto> hdr\<lparr>refcount := refcount hdr + 1\<rparr>))"
    by (rule mem_retain_count)
next
  fix hdr assume "h p = Some hdr"
  then show "mem_release call p h =
              (if sint (refcount hdr - 1) < 1
               then (case p_finalize hdr of
                       None \<Rightarrow> Some (h(p \<mapsto> hdr\<lparr>refcount := refcount hdr - 1\<rparr>))
                     | Some f \<Rightarrow> call f p (h(p \<mapsto> hdr\<lparr>refcount := refcount hdr - 1\<rparr>)))
                    \<bind> (\<lambda>h'. Some (h'(p := None)))
               else Some (h(p \<mapsto> hdr\<lparr>refcount := refcount hdr - 1\<rparr>)))"
    by (rule mem_release_count)
next
  assume hp: "h p = None"
  show "\<exists>h1 h2.
               mem_allocate p blank fin h = Some (p, h1) \<and>
               mem_retain p h1 = Some (p, h2) \<and>
               mem_num_references p h2 = Some 2 \<and>
               mem_release call p h2 = Some h1 \<and> h1 p \<noteq> None \<and>
               mem_num_references p h1 = Some 1 \<and>
               mem_release call p h1 =
                 (case fin of
                    None \<Rightarrow> Some (h(p \<mapsto> blank\<lparr>refcount := 0, p_finalize := fin\<rparr>))
                  | Some f \<Rightarrow> call f p (h(p \<mapsto> blank\<lparr>refcount := 0, p_finalize := fin\<rparr>)))
                 \<bind> (\<lambda>h'. Some (h'(p := None))) \<and>
               (\<forall>h3. mem_release call p h1 = Some h3 \<longrightarrow> h3 p = None)"
  proof (intro exI conjI allI impI)
    show "mem_allocate p blank fin h = Some (p, h(p \<mapsto> blank\<lparr>refcount := 1, p_finalize := fin\<rparr>))"
      using hp by (rule mem_allocate_count)
    show "mem_retain p (h(p \<mapsto> blank\<lparr>refcount := 1, p_finalize := fin\<rparr>))
            = Some (p, h(p \<mapsto> blank\<lparr>refcount := 2, p_finalize := fin\<rparr>))"
      using hp by (rule mem_allocate_then_retain)
    show "mem_num_references p (h(p \<mapsto> blank\<lparr>refcount := 2, p_finalize := fin\<rparr>)) = Some 2"
      by (simp add: mem_num_references_def)
    show "mem_release call p (h(p \<mapsto> blank\<lparr>refcount := 2, p_finalize := fin\<rparr>))
            = Some (h(p \<mapsto> blank\<lparr>refcount := 1, p_finalize := fin\<rparr>))"
      by (rule mem_release_twice_retained)
    show "(h(p \<mapsto> blank\<lparr>refcount := 1, p_finalize := fin\<rparr>)) p \<noteq> None"
      by simp
    show "mem_num_references p (h(p \<mapsto> blank\<lparr>refcount := 1, p_finalize := fin\<rparr>)) = Some 1"
      by (simp add: mem_num_references_def)
    show "mem_release call p (h(p \<mapsto> blank\<lparr>refcount := 1, p_finalize := fin\<rparr>)) =
            (case fin of
               None \<Rightarrow> Some (h(p \<mapsto> blank\<lparr>refcount := 0, p_finalize := fin\<rparr>))
             | Some f \<Rightarrow> call f p (h(p \<mapsto> blank\<lparr>refcount := 0, p_finalize := fin\<rparr>)))
            \<bind> (\<lambda>h'. Some (h'(p := None)))"
      by (rule mem_release_last)
    fix h3
    assume "mem_release call p (h(p \<mapsto> blank\<lparr>refcount := 1, p_finalize := fin\<rparr>)) = Some h3"
    then show "h3 p = None" by (rule mem_release_last_freed)
  qed
qed

theorem mem_refcount_protocol_witness:
  "mem_allocate 7 \<lparr>refcount = 0, p_finalize = None\<rparr> (None :: unit option) Map.empty
     = Some (7, [7 \<mapsto> \<lparr>refcount = 1, p_finalize = None\<rparr>]) \<and>
   mem_retain 7 [7 \<mapsto> \<lparr>refcount = 1, p_finalize = (None :: unit option)\<rparr>]
     = Some (7, [7 \<mapsto> \<lparr>refcount = 2, p_finalize = None\<rparr>]) \<and>
   mem_release (\<lambda>f p h. Some h) 7 [7 \<mapsto> \<lparr>refcount = 2, p_finalize = (None :: unit option)\<rparr>]
     = Some [7 \<mapsto> \<lparr>refcount = 1, p_finalize = None\<rparr>] \<and>
   mem_release (\<lambda>f p h. Some h) 7 [7 \<mapsto> \<lparr>refcount = 1, p_finalize = (None :: unit option)\<rparr>]
     = Some Map.empty"
  using
    mem_refcount_protocol [of "Map.empty :: (unit, unit) heap" 7
      "\<lparr>refcount = 0, p_finalize = None\<rparr>" None "\<lambda>f p h. Some h"]
    mem_refcount_protocol [of "[7 \<mapsto> \<lparr>refcount = 1, p_finalize = (None :: unit option)\<rparr>]" 7
      "\<lparr>refcount = 0, p_finalize = None\<rparr>" None "\<lambda>f p h. Some h"]
    mem_refcount_protocol [of "[7 \<mapsto> \<lparr>refcount = 2, p_finalize = (None :: unit option)\<rparr>]" 7
      "\<lparr>refcount = 0, p_finalize = None\<rparr>" None "\<lambda>f p h. Some h"]
  by simp

section \<open>Deletion\<close>

text \<open>
  C7: when \<open>rbt_lookup\<close> returns \<open>NULL\<close> for a key, \<open>rbt_delete\<close> of that key returns the
  tree as it was: the same root, the same heap (every node with its links, color,
  contents and count) and the same comparator.
\<close>

theorem rbt_delete_absent_noop:
  "rbt_lookup tree k = Some None \<Longrightarrow> rbt_delete tree k = Some tree"
  by (simp add: rbt_delete_def)

theorem rbt_delete_absent_noop_witness:
  "rbt_lookup example_tree 7 = Some None \<and> rbt_delete example_tree 7 = Some example_tree"
proof -
  have h: "rbt_lookup example_tree 7 = Some None" by code_simp
  show ?thesis using h rbt_delete_absent_noop [OF h] by simp
qed

text \<open>
  C8: \<open>rbt_del_rebalance\<close> on a node without a parent sets the color of that node to
  \<open>BLACK\<close> and changes nothing else: the root, the comparator, every other object and the
  other fields of the node stay; when the node was \<open>BLACK\<close> already the tree is unchanged.
\<close>

theorem rbt_del_rebalance_root:
  assumes "mem tree node = Some n" and "parent n = None"
  shows "\<exists>tree'. rbt_del_rebalance tree node = Some tree' \<and>
           root tree' = root tree \<and> comp tree' = comp tree \<and>
           mem tree' = (mem tree)(node \<mapsto> n\<lparr>color := BLACK\<rparr>) \<and>
           (color n = BLACK \<longrightarrow> tree' = tree)"
  using assms
  by (subst rbt_del_rebalance.simps) (auto simp: fld_def store_def map_upd_triv)

theorem rbt_del_rebalance_root_witness:
  "mem example_tree 1 = Some \<lparr>refcount = 1, p_finalize = Some Fn_rbt_node_free, left = Some 2,
                     right = Some 3, parent = None, color = BLACK, contents = 20\<rparr> \<and>
   rbt_del_rebalance example_tree 1 = Some example_tree"
proof -
  let ?n = "\<lparr>refcount = 1, p_finalize = Some Fn_rbt_node_free, left = Some 2,
                     right = Some 3, parent = None, color = BLACK, contents = 20\<rparr>"
  have h: "mem example_tree 1 = Some ?n" by (simp add: example_tree_def)
  have p: "parent ?n = None" by simp
  show ?thesis using h rbt_del_rebalance_root [OF h p] by auto
qed

text \<open>
  C1: after inserting 2, 1, 3, 4 the validator reports \<open>OK\<close>. Deleting 2 (the root, with
  two children, whose predecessor 1 is a black leaf) leaves a root that has a parent
  pointer; the validator reports \<open>BAD_PARENT_POINTER\<close>, and the keys 3 and 4, never
  deleted, are no longer found.
\<close>

theorem rbt_delete_two_children_breaks_invariants:
  "(case rbt_run (rbt_new (Some unbox_comparator)) [Insert 2 1, Insert 1 2, Insert 3 3, Insert 4 4] of
      None \<Rightarrow> False
    | Some t \<Rightarrow>
        rbt_check_status (Some t) = Some OK \<and>
        (case rbt_delete t 2 of
           None \<Rightarrow> False
         | Some t' \<Rightarrow>
             root t' = Some 2 \<and> fld t' 2 parent = Some (Some 3) \<and>
             rbt_check_status (Some t') = Some BAD_PARENT_POINTER \<and>
             rbt_lookup t' 3 = Some None \<and> rbt_lookup t' 4 = Some None))"
  by code_simp

text \<open>
  C4: in the same tree \<open>rbt_delete_node\<close> is called on node 1 (key 2), the root with the
  children 2 and 3; its predecessor is node 2. The recursive deletion of node 2 rotates
  node 1 below node 3. Afterwards node 2 is made the root although its parent pointer is
  node 3; it has no children; and node 3, whose own parent pointer is \<open>NULL\<close>, still
  points to the freed node 1 as its left child.
\<close>

theorem rbt_delete_node_splice_uses_stale_parent:
  "(case rbt_run (rbt_new (Some unbox_comparator)) [Insert 2 1, Insert 1 2, Insert 3 3, Insert 4 4] of
      None \<Rightarrow> False
    | Some t \<Rightarrow>
        rbt_lookup t 2 = Some (Some 1) \<and> root t = Some 1 \<and>
        fld t 1 left = Some (Some 2) \<and> fld t 1 right = Some (Some 3) \<and>
        rightmost_descendent t 2 = Some 2 \<and>
        (case rbt_delete_node t 1 of
           None \<Rightarrow> False
         | Some t' \<Rightarrow>
             mem t' 1 = None \<and>
             root t' = Some 2 \<and> fld t' 2 parent = Some (Some 3) \<and>
             fld t' 2 left = Some None \<and> fld t' 2 right = Some None \<and>
             fld t' 3 parent = Some None \<and> fld t' 3 left = Some (Some 1)))"
  by code_simp

text \<open>
  C10: a state reached by ten public operations in which \<open>rbt_delete\<close> of key 0 finds
  node 3 as the doomed node. Node 3 is \<open>RED\<close>, has no right child and has the left child
  2. \<open>rbt_delete_node\<close> takes the branch for a red node, clears the slot of the parent and
  frees node 3; its child, node 2 with key 0, is still live with a parent pointer to the
  freed node, and key 0 is no longer found.
\<close>

theorem rbt_delete_node_red_with_child_reachable:
  "(case rbt_run (rbt_new (Some unbox_comparator))
           [Insert 5 1, Insert 0 2, Insert 0 3, Insert 1 4, Insert 3 5, Insert 4 6, Delete 3,
            Insert 3 7, Insert 1 8, Insert 1 9] of
      None \<Rightarrow> False
    | Some t \<Rightarrow>
        rbt_lookup t 0 = Some (Some 3) \<and>
        node_color t (Some 3) = Some RED \<and>
        fld t 3 left = Some (Some 2) \<and> fld t 3 right = Some None \<and>
        fld t 3 parent = Some (Some 4) \<and>
        (case rbt_delete t 0 of
           None \<Rightarrow> False
         | Some t' \<Rightarrow>
             rbt_lookup t' 0 = Some None \<and> fld t' 2 contents = Some 0 \<and>
             fld t' 4 left = Some None \<and> fld t' 2 parent = Some (Some 3) \<and> mem t' 3 = None))"
  by code_simp

text \<open>
  The branch for at most one child writes the slot of the parent twice when the node is
  \<open>RED\<close>: once in the branch for a red node, and once after it, where the test
  \<open>node == parent->right\<close> reads the slot that was just cleared. For a red right child
  that test fails, and \<open>parent->left\<close> is cleared as well. After inserting 2, 1, 3 the
  deletion of 3 also cuts off node 2 (key 1), which stays allocated; the tree that is
  left satisfies the validator.
\<close>

lemma rbt_delete_red_right_child_drops_sibling:
  "(case rbt_run (rbt_new (Some unbox_comparator)) [Insert 2 1, Insert 1 2, Insert 3 3] of
      None \<Rightarrow> False
    | Some t \<Rightarrow>
        rbt_check_status (Some t) = Some OK \<and> rbt_lookup t 1 = Some (Some 2) \<and>
        node_color t (Some 3) = Some RED \<and> fld t 1 right = Some (Some 3) \<and>
        (case rbt_delete t 3 of
           None \<Rightarrow> False
         | Some t' \<Rightarrow>
             rbt_lookup t' 1 = Some None \<and> fld t' 2 contents = Some 1 \<and>
             fld t' 1 left = Some None \<and> fld t' 1 right = Some None \<and>
             rbt_check_status (Some t') = Some OK))"
  by code_simp

section \<open>Lookup\<close>

text \<open>
  C2, as stated, fails: after two inserts of the key 1 (nodes 1 and 2, in this order),
  \<open>rbt_lookup\<close> of 1 returns node 1, not node 2, which was inserted last.
\<close>

theorem rbt_lookup_first_inserted_duplicate:
  "(case rbt_insert (rbt_new (Some unbox_comparator)) 1 1 of
      None \<Rightarrow> False
    | Some (n1, t1) \<Rightarrow>
        (case rbt_insert t1 1 2 of
           None \<Rightarrow> False
         | Some (n2, t2) \<Rightarrow>
             n1 = 1 \<and> n2 = 2 \<and> rbt_lookup t2 1 = Some (Some n1) \<and>
             rbt_lookup t2 1 \<noteq> Some (Some n2)))"
  by code_simp

section \<open>The validator\<close>

text \<open>
  C3: in \<open>red_red_tree\<close> every color is valid, the red node 2 has the red child 3 and
  nothing else is violated, yet \<open>rbt_check_status\<close> returns \<open>OK\<close>.
\<close>

theorem rbt_check_status_misses_red_red:
  "fld red_red_tree 2 color = Some RED \<and> fld red_red_tree 2 left = Some (Some 3) \<and>
   fld red_red_tree 3 color = Some RED \<and>
   rbt_check_status (Some red_red_tree) = Some OK"
  by code_simp

section \<open>Rotation\<close>

subsection \<open>What a linked shape says about a node\<close>

lemma linked_Node:
  "linked h par (Node l a r) \<longleftrightarrow>
     (\<exists>n. h a = Some n \<and> left n = top l \<and> right n = top r \<and> parent n = par \<and>
          linked h (Some a) l \<and> linked h (Some a) r)"
  by (simp split: option.split)

declare linked.simps(2) [simp del]

lemma linked_frame:
  "linked h par s \<Longrightarrow> (\<And>x. x \<in> set (nodes s) \<Longrightarrow> map_option links (h' x) = map_option links (h x))
     \<Longrightarrow> linked h' par s"
proof (induction s arbitrary: par)
  case Leaf
  show ?case by simp
next
  case (Node l a r)
  from Node.prems(1) obtain n where n: "h a = Some n" "left n = top l" "right n = top r"
      "parent n = par" "linked h (Some a) l" "linked h (Some a) r"
    by (auto simp: linked_Node)
  from Node.prems(2) [of a] n(1) obtain n' where n': "h' a = Some n'" "links n' = links n"
    by (auto simp: map_option_case split: option.splits)
  have "linked h' (Some a) l" by (rule Node.IH(1) [OF n(5)]) (simp add: Node.prems(2))
  moreover have "linked h' (Some a) r" by (rule Node.IH(2) [OF n(6)]) (simp add: Node.prems(2))
  ultimately show ?case using n n' by (simp add: links_def linked_Node)
qed

lemma linked_dom:
  "linked h par s \<Longrightarrow> a \<in> set (nodes s) \<Longrightarrow> \<exists>n. h a = Some n"
  by (induction s arbitrary: par) (auto simp: linked_Node)

lemma top_in_nodes: "top s = Some a \<Longrightarrow> a \<in> set (nodes s)"
  by (cases s) auto

lemma linked_top_parent:
  "linked h par s \<Longrightarrow> top s = Some a \<Longrightarrow> \<exists>n. h a = Some n \<and> parent n = par"
  by (cases s) (auto simp: linked_Node)

text \<open>children of a node of the shape\<close>
lemma linked_child:
  assumes "linked h par s" "distinct (nodes s)" "a \<in> set (nodes s)" "h a = Some n"
  shows "\<exists>l r. left n = top l \<and> right n = top r \<and> linked h (Some a) l \<and> linked h (Some a) r \<and>
           set (nodes l) \<subseteq> set (nodes s) \<and> set (nodes r) \<subseteq> set (nodes s) \<and>
           a \<notin> set (nodes l) \<and> a \<notin> set (nodes r) \<and> set (nodes l) \<inter> set (nodes r) = {} \<and>
           distinct (nodes l) \<and> distinct (nodes r) \<and>
           (\<forall>x \<in> set (nodes l) \<union> set (nodes r). depth s x > depth s a)"
  using assms
proof (induction s arbitrary: par)
  case Leaf
  then show ?case by simp
next
  case (Node l x r)
  from Node.prems(1) obtain nx where nx: "h x = Some nx" "left nx = top l" "right nx = top r"
      "parent nx = par" "linked h (Some x) l" "linked h (Some x) r"
    by (auto simp: linked_Node)
  from Node.prems(2) have d: "distinct (nodes l)" "distinct (nodes r)" "x \<notin> set (nodes l)"
      "x \<notin> set (nodes r)" "set (nodes l) \<inter> set (nodes r) = {}"
    by auto
  consider "a = x" | "a \<noteq> x" "a \<in> set (nodes l)" | "a \<noteq> x" "a \<notin> set (nodes l)" "a \<in> set (nodes r)"
    using Node.prems(3) by auto
  then show ?case
  proof cases
    case 1
    with nx Node.prems(4) have "n = nx" by simp
    with 1 nx d show ?thesis
      by (intro exI [of _ l] exI [of _ r]) auto
  next
    case 2
    from Node.IH(1) [OF nx(5) d(1) 2(2) Node.prems(4)]
    obtain l' r' where *: "left n = top l'" "right n = top r'" "linked h (Some a) l'"
       "linked h (Some a) r'" "set (nodes l') \<subseteq> set (nodes l)" "set (nodes r') \<subseteq> set (nodes l)"
       "a \<notin> set (nodes l')" "a \<notin> set (nodes r')" "set (nodes l') \<inter> set (nodes r') = {}"
       "distinct (nodes l')" "distinct (nodes r')"
       "\<forall>x \<in> set (nodes l') \<union> set (nodes r'). depth l x > depth l a"
      by blast
    have "\<forall>y \<in> set (nodes l') \<union> set (nodes r'). depth (Node l x r) y > depth (Node l x r) a"
      using * 2 d by auto
    with * show ?thesis
      by (intro exI [of _ l'] exI [of _ r']) auto
  next
    case 3
    from Node.IH(2) [OF nx(6) d(2) 3(3) Node.prems(4)]
    obtain l' r' where *: "left n = top l'" "right n = top r'" "linked h (Some a) l'"
       "linked h (Some a) r'" "set (nodes l') \<subseteq> set (nodes r)" "set (nodes r') \<subseteq> set (nodes r)"
       "a \<notin> set (nodes l')" "a \<notin> set (nodes r')" "set (nodes l') \<inter> set (nodes r') = {}"
       "distinct (nodes l')" "distinct (nodes r')"
       "\<forall>x \<in> set (nodes l') \<union> set (nodes r'). depth r x > depth r a"
      by blast
    have "\<forall>y \<in> set (nodes l') \<union> set (nodes r'). depth (Node l x r) y > depth (Node l x r) a"
      using * 3 d by auto
    with * show ?thesis
      by (intro exI [of _ l'] exI [of _ r']) auto
  qed
qed

lemma depth_top: "top s = Some a \<Longrightarrow> depth s a = 0"
  by (cases s) auto

text \<open>the parent pointer of a node of the shape\<close>
lemma linked_parent:
  assumes "linked h par s" "distinct (nodes s)" "a \<in> set (nodes s)" "h a = Some n"
  shows "(top s = Some a \<and> parent n = par) \<or>
         (top s \<noteq> Some a \<and>
          (\<exists>p pn. parent n = Some p \<and> p \<in> set (nodes s) \<and> h p = Some pn \<and> p \<noteq> a \<and>
                  (left pn = Some a \<or> right pn = Some a) \<and> Suc (depth s p) = depth s a))"
  using assms
proof (induction s arbitrary: par)
  case Leaf
  then show ?case by simp
next
  case (Node l x r)
  from Node.prems(1) obtain nx where nx: "h x = Some nx" "left nx = top l" "right nx = top r"
      "parent nx = par" "linked h (Some x) l" "linked h (Some x) r"
    by (auto simp: linked_Node)
  from Node.prems(2) have d: "distinct (nodes l)" "distinct (nodes r)" "x \<notin> set (nodes l)"
      "x \<notin> set (nodes r)" "set (nodes l) \<inter> set (nodes r) = {}"
    by auto
  consider "a = x" | "a \<noteq> x" "a \<in> set (nodes l)" | "a \<noteq> x" "a \<notin> set (nodes l)" "a \<in> set (nodes r)"
    using Node.prems(3) by auto
  then show ?case
  proof cases
    case 1
    with nx Node.prems(4) show ?thesis by simp
  next
    case 2
    from Node.IH(1) [OF nx(5) d(1) 2(2) Node.prems(4)]
    show ?thesis using 2 d nx by (auto simp: depth_top)
  next
    case 3
    from Node.IH(2) [OF nx(6) d(2) 3(3) Node.prems(4)]
    show ?thesis using 3 d nx by (auto simp: depth_top)
  qed
qed

lemma nodes_rot: "nodes (rot d s) = nodes s"
  by (induction d s rule: rot.induct) auto

lemma nodes_rot_at: "nodes (rot_at d a s) = nodes s"
  by (induction s) (auto simp: nodes_rot simp del: rot.simps)

lemma rot_at_absent: "a \<notin> set (nodes s) \<Longrightarrow> rot_at d a s = s"
  by (induction s) auto

lemma top_rot_at: "top s \<noteq> Some a \<Longrightarrow> top (rot_at d a s) = top s"
  by (cases s) auto

lemma touched_in_subtree:
  assumes "linked h par s" "distinct (nodes s)" "a \<in> set (nodes s)" "h a = Some n"
    and out: "\<forall>q. par = Some q \<longrightarrow> q \<notin> set (nodes s)"
  shows "(\<forall>c. left n = Some c \<longrightarrow> c \<in> set (nodes s) \<and> c \<noteq> a) \<and>
         (\<forall>c. right n = Some c \<longrightarrow> c \<in> set (nodes s) \<and> c \<noteq> a) \<and>
         (\<forall>p. parent n = Some p \<longrightarrow> p \<noteq> a \<and> (p \<in> set (nodes s) \<or> (top s = Some a \<and> par = Some p)))"
proof -
  from linked_child [OF assms(1-4)] obtain l r where
    lr: "left n = top l" "right n = top r" "set (nodes l) \<subseteq> set (nodes s)"
      "set (nodes r) \<subseteq> set (nodes s)" "a \<notin> set (nodes l)" "a \<notin> set (nodes r)"
    by blast
  have "\<forall>c. left n = Some c \<longrightarrow> c \<in> set (nodes s) \<and> c \<noteq> a"
    using lr top_in_nodes [of l] by auto
  moreover have "\<forall>c. right n = Some c \<longrightarrow> c \<in> set (nodes s) \<and> c \<noteq> a"
    using lr top_in_nodes [of r] by auto
  moreover have "\<forall>p. parent n = Some p \<longrightarrow> p \<noteq> a \<and> (p \<in> set (nodes s) \<or> (top s = Some a \<and> par = Some p))"
    using linked_parent [OF assms(1-4)] assms(3) out by auto
  ultimately show ?thesis by blast
qed

lemma top_rot_at_LEFT:
  assumes "linked h par s" "top s = Some a" "h a = Some n" "right n = Some e"
  shows "top (rot_at LEFT a s) = Some e"
proof -
  from assms(2) obtain l r where s: "s = Node l a r" by (cases s) auto
  with assms have "top r = Some e" by (auto simp: linked_Node)
  then obtain m rr where "r = Node m e rr" by (cases r) auto
  with s show ?thesis by simp
qed

lemma top_rot_at_RIGHT:
  assumes "linked h par s" "top s = Some a" "h a = Some n" "left n = Some e"
  shows "top (rot_at RIGHT a s) = Some e"
proof -
  from assms(2) obtain l r where s: "s = Node l a r" by (cases s) auto
  with assms have "top l = Some e" by (auto simp: linked_Node)
  then obtain ll m where "l = Node ll e m" by (cases l) auto
  with s show ?thesis by simp
qed

lemma rot_at_linked_LEFT:
  assumes "linked h par s" "distinct (nodes s)" "a \<in> set (nodes s)"
    and out: "\<forall>q. par = Some q \<longrightarrow> q \<notin> set (nodes s)"
    and na: "h a = Some n" and e: "right n = Some e" and ne: "h e = Some en"
    and h'a: "h' a = Some (n\<lparr>right := left en, parent := Some e\<rparr>)"
    and h'e: "h' e = Some (en\<lparr>parent := parent n, left := Some a\<rparr>)"
    and h'c: "\<forall>c. left en = Some c \<longrightarrow> h' c = map_option (\<lambda>x. x\<lparr>parent := Some a\<rparr>) (h c)"
    and h'p: "\<forall>p. parent n = Some p \<longrightarrow>
                h' p = map_option (\<lambda>x. if left x = Some a then x\<lparr>left := Some e\<rparr>
                                         else x\<lparr>right := Some e\<rparr>) (h p)"
    and fr: "\<forall>x. x \<noteq> a \<and> x \<noteq> e \<and> left en \<noteq> Some x \<and> parent n \<noteq> Some x \<longrightarrow> h' x = h x"
  shows "linked h' par (rot_at LEFT a s)"
  using assms(1-4)
proof (induction s arbitrary: par)
  case Leaf
  then show ?case by simp
next
  case (Node l x r)
  from Node.prems(1) obtain nx where nx: "h x = Some nx" "left nx = top l" "right nx = top r"
      "parent nx = par" "linked h (Some x) l" "linked h (Some x) r"
    by (auto simp: linked_Node)
  from Node.prems(2) have d: "distinct (nodes l)" "distinct (nodes r)" "x \<notin> set (nodes l)"
      "x \<notin> set (nodes r)" "set (nodes l) \<inter> set (nodes r) = {}"
    by auto
  have outl: "\<forall>q. Some x = Some q \<longrightarrow> q \<notin> set (nodes l)" using d by simp
  have outr: "\<forall>q. Some x = Some q \<longrightarrow> q \<notin> set (nodes r)" using d by simp
  consider (top) "a = x" | (inl) "a \<noteq> x" "a \<in> set (nodes l)"
    | (inr) "a \<noteq> x" "a \<notin> set (nodes l)" "a \<in> set (nodes r)"
    using Node.prems(3) by auto
  then show ?case
  proof cases
    case top
    with nx na have [simp]: "nx = n" by simp
    from e nx obtain m rr where r: "r = Node m e rr" by (cases r) auto
    from nx(6) r ne have en: "left en = top m" "right en = top rr" "parent en = Some x"
      "linked h (Some e) m" "linked h (Some e) rr"
      by (auto simp: linked_Node)
    have dd: "e \<noteq> a" "a \<notin> set (nodes m)" "a \<notin> set (nodes rr)" "e \<notin> set (nodes l)"
      "e \<notin> set (nodes m)" "e \<notin> set (nodes rr)" "set (nodes l) \<inter> set (nodes m) = {}"
      "set (nodes l) \<inter> set (nodes rr) = {}" "set (nodes m) \<inter> set (nodes rr) = {}"
      using Node.prems(2) r top by auto
    have pout: "\<forall>p. parent n = Some p \<longrightarrow> p \<notin> set (nodes (Node l x r))"
      using Node.prems(4) nx by simp
    have same: "h' y = h y" if "y \<in> set (nodes l) \<union> set (nodes rr)" for y
    proof -
      have "y \<noteq> a" "y \<noteq> e" using that dd d top by auto
      moreover have "left en \<noteq> Some y" using that en(1) top_in_nodes [of m y] dd by auto
      moreover have "parent n \<noteq> Some y" using that pout r by auto
      ultimately show ?thesis using fr by blast
    qed
    have 1: "linked h' (Some a) l"
      using nx(5) top by (auto intro: linked_frame simp: same)
    have 2: "linked h' (Some e) rr"
      using en(5) by (auto intro: linked_frame simp: same)
    have 3: "linked h' (Some a) m"
    proof (cases m)
      case Leaf
      then show ?thesis by simp
    next
      case (Node ml c mr)
      with en(4) obtain nc where nc: "h c = Some nc" "left nc = top ml" "right nc = top mr"
        "linked h (Some c) ml" "linked h (Some c) mr"
        by (auto simp: linked_Node)
      have cc: "left en = Some c" using en(1) Node by simp
      then have h'cc: "h' c = Some (nc\<lparr>parent := Some a\<rparr>)" using h'c nc by simp
      have same': "h' y = h y" if "y \<in> set (nodes ml) \<union> set (nodes mr)" for y
      proof -
        have "y \<in> set (nodes m)" using that Node by auto
        then have "y \<noteq> a" "y \<noteq> e" using dd by auto
        moreover have "left en \<noteq> Some y" using that cc Node Node.prems(2) r by auto
        moreover have "parent n \<noteq> Some y" using \<open>y \<in> set (nodes m)\<close> pout r by auto
        ultimately show ?thesis using fr by blast
      qed
      have "linked h' (Some c) ml" using nc(4) by (auto intro: linked_frame simp: same')
      moreover have "linked h' (Some c) mr" using nc(5) by (auto intro: linked_frame simp: same')
      ultimately show ?thesis using h'cc nc Node by (simp add: linked_Node)
    qed
    have "linked h' par (Node (Node l a m) e rr)"
      using 1 2 3 h'a h'e nx en top by (simp add: linked_Node)
    then show ?thesis using top r by simp
  next
    case inl
    from touched_in_subtree [OF nx(5) d(1) inl(2) na outl]
    have t: "e \<in> set (nodes l)" "parent n = Some x \<longrightarrow> top l = Some a"
      "\<forall>p. parent n = Some p \<longrightarrow> p = x \<or> p \<in> set (nodes l)"
      using e d by auto
    from touched_in_subtree [OF nx(5) d(1) t(1) ne outl]
    have t2: "\<forall>c. left en = Some c \<longrightarrow> c \<in> set (nodes l)" by auto
    have IH: "linked h' (Some x) (rot_at LEFT a l)"
      by (rule Node.IH(1) [OF nx(5) d(1) inl(2) outl])
    have "linked h' (Some x) r"
    proof (rule linked_frame [OF nx(6)])
      fix y assume y: "y \<in> set (nodes r)"
      then have "y \<noteq> a" "y \<noteq> e" "left en \<noteq> Some y" "parent n \<noteq> Some y"
        using inl t t2 d by auto
      then show "map_option links (h' y) = map_option links (h y)" using fr by simp
    qed
    moreover have "\<exists>nx'. h' x = Some nx' \<and> left nx' = top (rot_at LEFT a l) \<and>
         right nx' = top r \<and> parent nx' = par"
    proof (cases "parent n = Some x")
      case True
      then have ta: "top l = Some a" using t by simp
      then have "left nx = Some a" using nx by simp
      then have "h' x = Some (nx\<lparr>left := Some e\<rparr>)" using h'p True nx by simp
      moreover have "top (rot_at LEFT a l) = Some e"
        by (rule top_rot_at_LEFT [OF nx(5) ta na e])
      ultimately show ?thesis using nx by simp
    next
      case False
      have "top l \<noteq> Some a" using False linked_top_parent [OF nx(5), of a] na by auto
      then have "top (rot_at LEFT a l) = top l" by (rule top_rot_at)
      moreover have "h' x = h x" using fr False inl t t2 d by auto
      ultimately show ?thesis using nx by simp
    qed
    ultimately have "linked h' par (Node (rot_at LEFT a l) x r)"
      using IH by (auto simp: linked_Node)
    moreover have "a \<notin> set (nodes r)" using inl d by auto
    ultimately show ?thesis using inl by (simp add: rot_at_absent)
  next
    case inr
    from touched_in_subtree [OF nx(6) d(2) inr(3) na outr]
    have t: "e \<in> set (nodes r)" "parent n = Some x \<longrightarrow> top r = Some a"
      "\<forall>p. parent n = Some p \<longrightarrow> p = x \<or> p \<in> set (nodes r)"
      using e d by auto
    from touched_in_subtree [OF nx(6) d(2) t(1) ne outr]
    have t2: "\<forall>c. left en = Some c \<longrightarrow> c \<in> set (nodes r)" by auto
    have IH: "linked h' (Some x) (rot_at LEFT a r)"
      by (rule Node.IH(2) [OF nx(6) d(2) inr(3) outr])
    have "linked h' (Some x) l"
    proof (rule linked_frame [OF nx(5)])
      fix y assume y: "y \<in> set (nodes l)"
      then have "y \<noteq> a" "y \<noteq> e" "left en \<noteq> Some y" "parent n \<noteq> Some y"
        using inr t t2 d by auto
      then show "map_option links (h' y) = map_option links (h y)" using fr by simp
    qed
    moreover have "\<exists>nx'. h' x = Some nx' \<and> left nx' = top l \<and>
         right nx' = top (rot_at LEFT a r) \<and> parent nx' = par"
    proof (cases "parent n = Some x")
      case True
      then have ta: "top r = Some a" using t by simp
      have "left nx \<noteq> Some a" using nx inr top_in_nodes [of l a] by auto
      then have "h' x = Some (nx\<lparr>right := Some e\<rparr>)" using h'p True nx by simp
      moreover have "top (rot_at LEFT a r) = Some e"
        by (rule top_rot_at_LEFT [OF nx(6) ta na e])
      ultimately show ?thesis using nx by simp
    next
      case False
      have "top r \<noteq> Some a" using False linked_top_parent [OF nx(6), of a] na by auto
      then have "top (rot_at LEFT a r) = top r" by (rule top_rot_at)
      moreover have "h' x = h x" using fr False inr t t2 d by auto
      ultimately show ?thesis using nx by simp
    qed
    ultimately have "linked h' par (Node l x (rot_at LEFT a r))"
      using IH by (auto simp: linked_Node)
    then show ?thesis using inr d by (simp add: rot_at_absent)
  qed
qed

lemma rot_at_linked_RIGHT:
  assumes "linked h par s" "distinct (nodes s)" "a \<in> set (nodes s)"
    and out: "\<forall>q. par = Some q \<longrightarrow> q \<notin> set (nodes s)"
    and na: "h a = Some n" and e: "left n = Some e" and ne: "h e = Some en"
    and h'a: "h' a = Some (n\<lparr>left := right en, parent := Some e\<rparr>)"
    and h'e: "h' e = Some (en\<lparr>parent := parent n, right := Some a\<rparr>)"
    and h'c: "\<forall>c. right en = Some c \<longrightarrow> h' c = map_option (\<lambda>x. x\<lparr>parent := Some a\<rparr>) (h c)"
    and h'p: "\<forall>p. parent n = Some p \<longrightarrow>
                h' p = map_option (\<lambda>x. if right x = Some a then x\<lparr>right := Some e\<rparr>
                                         else x\<lparr>left := Some e\<rparr>) (h p)"
    and fr: "\<forall>x. x \<noteq> a \<and> x \<noteq> e \<and> right en \<noteq> Some x \<and> parent n \<noteq> Some x \<longrightarrow> h' x = h x"
  shows "linked h' par (rot_at RIGHT a s)"
  using assms(1-4)
proof (induction s arbitrary: par)
  case Leaf
  then show ?case by simp
next
  case (Node l x r)
  from Node.prems(1) obtain nx where nx: "h x = Some nx" "right nx = top r" "left nx = top l"
      "parent nx = par" "linked h (Some x) r" "linked h (Some x) l"
    by (auto simp: linked_Node)
  from Node.prems(2) have d: "distinct (nodes r)" "distinct (nodes l)" "x \<notin> set (nodes r)"
      "x \<notin> set (nodes l)" "set (nodes r) \<inter> set (nodes l) = {}"
    by auto
  have outr: "\<forall>q. Some x = Some q \<longrightarrow> q \<notin> set (nodes r)" using d by simp
  have outl: "\<forall>q. Some x = Some q \<longrightarrow> q \<notin> set (nodes l)" using d by simp
  consider (top) "a = x" | (inr) "a \<noteq> x" "a \<in> set (nodes r)"
    | (inl) "a \<noteq> x" "a \<notin> set (nodes r)" "a \<in> set (nodes l)"
    using Node.prems(3) by auto
  then show ?case
  proof cases
    case top
    with nx na have [simp]: "nx = n" by simp
    from e nx obtain m ll where l: "l = Node ll e m" by (cases l) auto
    from nx(6) l ne have en: "right en = top m" "left en = top ll" "parent en = Some x"
      "linked h (Some e) m" "linked h (Some e) ll"
      by (auto simp: linked_Node)
    have dd: "e \<noteq> a" "a \<notin> set (nodes m)" "a \<notin> set (nodes ll)" "e \<notin> set (nodes r)"
      "e \<notin> set (nodes m)" "e \<notin> set (nodes ll)" "set (nodes r) \<inter> set (nodes m) = {}"
      "set (nodes r) \<inter> set (nodes ll) = {}" "set (nodes m) \<inter> set (nodes ll) = {}"
      using Node.prems(2) l top by auto
    have pout: "\<forall>p. parent n = Some p \<longrightarrow> p \<notin> set (nodes (Node l x r))"
      using Node.prems(4) nx by simp
    have same: "h' y = h y" if "y \<in> set (nodes r) \<union> set (nodes ll)" for y
    proof -
      have "y \<noteq> a" "y \<noteq> e" using that dd d top by auto
      moreover have "right en \<noteq> Some y" using that en(1) top_in_nodes [of m y] dd by auto
      moreover have "parent n \<noteq> Some y" using that pout l by auto
      ultimately show ?thesis using fr by blast
    qed
    have 1: "linked h' (Some a) r"
      using nx(5) top by (auto intro: linked_frame simp: same)
    have 2: "linked h' (Some e) ll"
      using en(5) by (auto intro: linked_frame simp: same)
    have 3: "linked h' (Some a) m"
    proof (cases m)
      case Leaf
      then show ?thesis by simp
    next
      case (Node ml c mr)
      with en(4) obtain nc where nc: "h c = Some nc" "right nc = top mr" "left nc = top ml"
        "linked h (Some c) mr" "linked h (Some c) ml"
        by (auto simp: linked_Node)
      have cc: "right en = Some c" using en(1) Node by simp
      then have h'cc: "h' c = Some (nc\<lparr>parent := Some a\<rparr>)" using h'c nc by simp
      have same': "h' y = h y" if "y \<in> set (nodes mr) \<union> set (nodes ml)" for y
      proof -
        have "y \<in> set (nodes m)" using that Node by auto
        then have "y \<noteq> a" "y \<noteq> e" using dd by auto
        moreover have "right en \<noteq> Some y" using that cc Node Node.prems(2) l by auto
        moreover have "parent n \<noteq> Some y" using \<open>y \<in> set (nodes m)\<close> pout l by auto
        ultimately show ?thesis using fr by blast
      qed
      have "linked h' (Some c) mr" using nc(4) by (auto intro: linked_frame simp: same')
      moreover have "linked h' (Some c) ml" using nc(5) by (auto intro: linked_frame simp: same')
      ultimately show ?thesis using h'cc nc Node by (simp add: linked_Node)
    qed
    have "linked h' par (Node ll e (Node m a r))"
      using 1 2 3 h'a h'e nx en top by (simp add: linked_Node)
    then show ?thesis using top l by simp
  next
    case inr
    from touched_in_subtree [OF nx(5) d(1) inr(2) na outr]
    have t: "e \<in> set (nodes r)" "parent n = Some x \<longrightarrow> top r = Some a"
      "\<forall>p. parent n = Some p \<longrightarrow> p = x \<or> p \<in> set (nodes r)"
      using e d by auto
    from touched_in_subtree [OF nx(5) d(1) t(1) ne outr]
    have t2: "\<forall>c. right en = Some c \<longrightarrow> c \<in> set (nodes r)" by auto
    have IH: "linked h' (Some x) (rot_at RIGHT a r)"
      by (rule Node.IH(2) [OF nx(5) d(1) inr(2) outr])
    have "linked h' (Some x) l"
    proof (rule linked_frame [OF nx(6)])
      fix y assume y: "y \<in> set (nodes l)"
      then have "y \<noteq> a" "y \<noteq> e" "right en \<noteq> Some y" "parent n \<noteq> Some y"
        using inr t t2 d by auto
      then show "map_option links (h' y) = map_option links (h y)" using fr by simp
    qed
    moreover have "\<exists>nx'. h' x = Some nx' \<and> right nx' = top (rot_at RIGHT a r) \<and>
         left nx' = top l \<and> parent nx' = par"
    proof (cases "parent n = Some x")
      case True
      then have ta: "top r = Some a" using t by simp
      then have "right nx = Some a" using nx by simp
      then have "h' x = Some (nx\<lparr>right := Some e\<rparr>)" using h'p True nx by simp
      moreover have "top (rot_at RIGHT a r) = Some e"
        by (rule top_rot_at_RIGHT [OF nx(5) ta na e])
      ultimately show ?thesis using nx by simp
    next
      case False
      have "top r \<noteq> Some a" using False linked_top_parent [OF nx(5), of a] na by auto
      then have "top (rot_at RIGHT a r) = top r" by (rule top_rot_at)
      moreover have "h' x = h x" using fr False inr t t2 d by auto
      ultimately show ?thesis using nx by simp
    qed
    ultimately have "linked h' par (Node l x (rot_at RIGHT a r))"
      using IH by (auto simp: linked_Node)
    moreover have "a \<notin> set (nodes l)" using inr d by auto
    ultimately show ?thesis using inr by (simp add: rot_at_absent)
  next
    case inl
    from touched_in_subtree [OF nx(6) d(2) inl(3) na outl]
    have t: "e \<in> set (nodes l)" "parent n = Some x \<longrightarrow> top l = Some a"
      "\<forall>p. parent n = Some p \<longrightarrow> p = x \<or> p \<in> set (nodes l)"
      using e d by auto
    from touched_in_subtree [OF nx(6) d(2) t(1) ne outl]
    have t2: "\<forall>c. right en = Some c \<longrightarrow> c \<in> set (nodes l)" by auto
    have IH: "linked h' (Some x) (rot_at RIGHT a l)"
      by (rule Node.IH(1) [OF nx(6) d(2) inl(3) outl])
    have "linked h' (Some x) r"
    proof (rule linked_frame [OF nx(5)])
      fix y assume y: "y \<in> set (nodes r)"
      then have "y \<noteq> a" "y \<noteq> e" "right en \<noteq> Some y" "parent n \<noteq> Some y"
        using inl t t2 d by auto
      then show "map_option links (h' y) = map_option links (h y)" using fr by simp
    qed
    moreover have "\<exists>nx'. h' x = Some nx' \<and> right nx' = top r \<and>
         left nx' = top (rot_at RIGHT a l) \<and> parent nx' = par"
    proof (cases "parent n = Some x")
      case True
      then have ta: "top l = Some a" using t by simp
      have "right nx \<noteq> Some a" using nx inl top_in_nodes [of r a] by auto
      then have "h' x = Some (nx\<lparr>left := Some e\<rparr>)" using h'p True nx by simp
      moreover have "top (rot_at RIGHT a l) = Some e"
        by (rule top_rot_at_RIGHT [OF nx(6) ta na e])
      ultimately show ?thesis using nx by simp
    next
      case False
      have "top l \<noteq> Some a" using False linked_top_parent [OF nx(6), of a] na by auto
      then have "top (rot_at RIGHT a l) = top l" by (rule top_rot_at)
      moreover have "h' x = h x" using fr False inl t t2 d by auto
      ultimately show ?thesis using nx by simp
    qed
    ultimately have "linked h' par (Node (rot_at RIGHT a l) x r)"
      using IH by (auto simp: linked_Node)
    then show ?thesis using inl d by (simp add: rot_at_absent)
  qed
qed

subsection \<open>The heap after a rotation\<close>

lemma rotate_LEFT_result:
  assumes n: "mem tree node = Some n" and e: "right n = Some e" and en: "mem tree e = Some en"
    and ne: "e \<noteq> node"
    and p: "\<forall>p. parent n = Some p \<longrightarrow> p \<noteq> node \<and> p \<noteq> e \<and> mem tree p \<noteq> None"
    and c: "\<forall>c. left en = Some c \<longrightarrow> c \<noteq> node \<and> c \<noteq> e \<and> parent n \<noteq> Some c \<and> mem tree c \<noteq> None"
  shows "\<exists>tree'. rotate tree node LEFT = Some tree' \<and> comp tree' = comp tree \<and>
           root tree' = (if parent n = None then Some e else root tree) \<and>
           mem tree' node = Some (n\<lparr>right := left en, parent := Some e\<rparr>) \<and>
           mem tree' e = Some (en\<lparr>parent := parent n, left := Some node\<rparr>) \<and>
           (\<forall>c. left en = Some c \<longrightarrow> mem tree' c = map_option (\<lambda>x. x\<lparr>parent := Some node\<rparr>) (mem tree c)) \<and>
           (\<forall>p. parent n = Some p \<longrightarrow>
                mem tree' p = map_option (\<lambda>x. if left x = Some node then x\<lparr>left := Some e\<rparr>
                                         else x\<lparr>right := Some e\<rparr>) (mem tree p)) \<and>
           (\<forall>x. x \<noteq> node \<and> x \<noteq> e \<and> left en \<noteq> Some x \<and> parent n \<noteq> Some x \<longrightarrow> mem tree' x = mem tree x)"
proof (cases "parent n")
  case None
  show ?thesis
  proof (cases "left en")
    case N2: None
    show ?thesis using n e en ne None N2
      by (simp add: rotate_def fld_def store_def)
  next
    case (Some c)
    with c obtain cn where "mem tree c = Some cn" "c \<noteq> node" "c \<noteq> e" by auto
    then show ?thesis using n e en ne None Some
      by (simp add: rotate_def fld_def store_def)
  qed
next
  case (Some p)
  with p obtain pn where pn: "mem tree p = Some pn" "p \<noteq> node" "p \<noteq> e" by auto
  show ?thesis
  proof (cases "left en")
    case None
    show ?thesis using n e en ne Some None pn
      by (simp add: rotate_def fld_def store_def)
  next
    case S2: (Some c)
    with c Some obtain cn where "mem tree c = Some cn" "c \<noteq> node" "c \<noteq> e" "c \<noteq> p" by auto
    then show ?thesis using n e en ne Some S2 pn
      by (simp add: rotate_def fld_def store_def)
  qed
qed

lemma rotate_RIGHT_result:
  assumes n: "mem tree node = Some n" and e: "left n = Some e" and en: "mem tree e = Some en"
    and ne: "e \<noteq> node"
    and p: "\<forall>p. parent n = Some p \<longrightarrow> p \<noteq> node \<and> p \<noteq> e \<and> mem tree p \<noteq> None"
    and c: "\<forall>c. right en = Some c \<longrightarrow> c \<noteq> node \<and> c \<noteq> e \<and> parent n \<noteq> Some c \<and> mem tree c \<noteq> None"
  shows "\<exists>tree'. rotate tree node RIGHT = Some tree' \<and> comp tree' = comp tree \<and>
           root tree' = (if parent n = None then Some e else root tree) \<and>
           mem tree' node = Some (n\<lparr>left := right en, parent := Some e\<rparr>) \<and>
           mem tree' e = Some (en\<lparr>parent := parent n, right := Some node\<rparr>) \<and>
           (\<forall>c. right en = Some c \<longrightarrow> mem tree' c = map_option (\<lambda>x. x\<lparr>parent := Some node\<rparr>) (mem tree c)) \<and>
           (\<forall>p. parent n = Some p \<longrightarrow>
                mem tree' p = map_option (\<lambda>x. if left x = Some node then x\<lparr>left := Some e\<rparr>
                                         else x\<lparr>right := Some e\<rparr>) (mem tree p)) \<and>
           (\<forall>x. x \<noteq> node \<and> x \<noteq> e \<and> right en \<noteq> Some x \<and> parent n \<noteq> Some x \<longrightarrow> mem tree' x = mem tree x)"
proof (cases "parent n")
  case None
  show ?thesis
  proof (cases "right en")
    case N2: None
    show ?thesis using n e en ne None N2
      by (simp add: rotate_def fld_def store_def)
  next
    case (Some c)
    with c obtain cn where "mem tree c = Some cn" "c \<noteq> node" "c \<noteq> e" by auto
    then show ?thesis using n e en ne None Some
      by (simp add: rotate_def fld_def store_def)
  qed
next
  case (Some p)
  with p obtain pn where pn: "mem tree p = Some pn" "p \<noteq> node" "p \<noteq> e" by auto
  show ?thesis
  proof (cases "right en")
    case None
    show ?thesis using n e en ne Some None pn
      by (simp add: rotate_def fld_def store_def)
  next
    case S2: (Some c)
    with c Some obtain cn where "mem tree c = Some cn" "c \<noteq> node" "c \<noteq> e" "c \<noteq> p" by auto
    then show ?thesis using n e en ne Some S2 pn
      by (simp add: rotate_def fld_def store_def)
  qed
qed

lemma child_facts:
  assumes "linked h None t" "distinct (nodes t)" "a \<in> set (nodes t)" "h a = Some n"
    and "left n = Some c \<or> right n = Some c"
  shows "c \<in> set (nodes t) \<and> (\<exists>cn. h c = Some cn \<and> parent cn = Some a) \<and>
         depth t c = Suc (depth t a) \<and> c \<noteq> a"
proof -
  from linked_child [OF assms(1-4)] obtain l r where
    lr: "left n = top l" "right n = top r" "linked h (Some a) l" "linked h (Some a) r"
      "set (nodes l) \<subseteq> set (nodes t)" "set (nodes r) \<subseteq> set (nodes t)"
      "a \<notin> set (nodes l)" "a \<notin> set (nodes r)"
    by blast
  from assms(5) lr have in_t: "c \<in> set (nodes t)" "c \<noteq> a"
    using top_in_nodes [of l c] top_in_nodes [of r c] by auto
  from assms(5) lr obtain cn where cn: "h c = Some cn" "parent cn = Some a"
    using linked_top_parent [of h "Some a" l c] linked_top_parent [of h "Some a" r c] by auto
  from linked_parent [OF assms(1,2) in_t(1) cn(1)] cn(2)
  have "depth t c = Suc (depth t a)" by auto
  with in_t cn show ?thesis by blast
qed

lemma children_distinct:
  assumes "linked h None t" "distinct (nodes t)" "a \<in> set (nodes t)" "h a = Some n"
    and "left n = Some c"
  shows "right n \<noteq> Some c"
proof -
  from linked_child [OF assms(1-4)] obtain l r where
    lr: "left n = top l" "right n = top r" "set (nodes l) \<inter> set (nodes r) = {}"
    by blast
  then show ?thesis using assms(5) top_in_nodes [of l c] top_in_nodes [of r c] by auto
qed

lemma parent_facts:
  assumes "linked h None t" "distinct (nodes t)" "a \<in> set (nodes t)" "h a = Some n"
    and "parent n = Some p"
  shows "p \<in> set (nodes t) \<and> (\<exists>pn. h p = Some pn \<and> (left pn = Some a \<or> right pn = Some a)) \<and>
         Suc (depth t p) = depth t a \<and> p \<noteq> a"
  using linked_parent [OF assms(1-4)] assms(5) by auto

lemma root_facts:
  assumes "linked h None t" "distinct (nodes t)" "a \<in> set (nodes t)" "h a = Some n"
  shows "parent n = None \<longleftrightarrow> top t = Some a"
  using linked_parent [OF assms(1-4)] by auto

lemma rotate_shape_LEFT:
  assumes rt: "root tree = top t" and lk: "linked (mem tree) None t" and ds: "distinct (nodes t)"
    and a: "node \<in> set (nodes t)" and n: "mem tree node = Some n" and e: "right n = Some e"
  shows "\<exists>tree' en. mem tree e = Some en \<and> rotate tree node LEFT = Some tree' \<and>
           comp tree' = comp tree \<and>
           root tree' = top (rot_at LEFT node t) \<and>
           linked (mem tree') None (rot_at LEFT node t) \<and>
           root tree' = (if parent n = None then Some e else root tree) \<and>
           mem tree' node = Some (n\<lparr>right := left en, parent := Some e\<rparr>) \<and>
           mem tree' e = Some (en\<lparr>parent := parent n, left := Some node\<rparr>) \<and>
           (\<forall>c. left en = Some c \<longrightarrow> mem tree' c = map_option (\<lambda>x. x\<lparr>parent := Some node\<rparr>) (mem tree c)) \<and>
           (\<forall>p. parent n = Some p \<longrightarrow>
                mem tree' p = map_option (\<lambda>x. if left x = Some node then x\<lparr>left := Some e\<rparr>
                                         else x\<lparr>right := Some e\<rparr>) (mem tree p)) \<and>
           (\<forall>x. x \<noteq> node \<and> x \<noteq> e \<and> left en \<noteq> Some x \<and> parent n \<noteq> Some x \<longrightarrow> mem tree' x = mem tree x)"
proof -
  from child_facts [OF lk ds a n, of e] e obtain en where
    en: "e \<in> set (nodes t)" "mem tree e = Some en" "parent en = Some node"
      "depth t e = Suc (depth t node)" "e \<noteq> node"
    by auto
  have p: "\<forall>p. parent n = Some p \<longrightarrow> p \<noteq> node \<and> p \<noteq> e \<and> mem tree p \<noteq> None"
  proof (intro allI impI)
    fix p assume "parent n = Some p"
    from parent_facts [OF lk ds a n this] en(4)
    show "p \<noteq> node \<and> p \<noteq> e \<and> mem tree p \<noteq> None" by auto
  qed
  have c: "\<forall>c. left en = Some c \<longrightarrow> c \<noteq> node \<and> c \<noteq> e \<and> parent n \<noteq> Some c \<and> mem tree c \<noteq> None"
  proof (intro allI impI)
    fix c assume c: "left en = Some c"
    from child_facts [OF lk ds en(1,2), of c] c
    have *: "depth t c = Suc (depth t e)" "c \<noteq> e" "mem tree c \<noteq> None" by auto
    have "parent n \<noteq> Some c"
    proof
      assume "parent n = Some c"
      from parent_facts [OF lk ds a n this] * en(4) show False by simp
    qed
    with * en(4) show "c \<noteq> node \<and> c \<noteq> e \<and> parent n \<noteq> Some c \<and> mem tree c \<noteq> None" by auto
  qed
  from rotate_LEFT_result [OF n e en(2) en(5) p c] obtain tree' where
    t': "rotate tree node LEFT = Some tree'" "comp tree' = comp tree"
      "root tree' = (if parent n = None then Some e else root tree)"
      "mem tree' node = Some (n\<lparr>right := left en, parent := Some e\<rparr>)"
      "mem tree' e = Some (en\<lparr>parent := parent n, left := Some node\<rparr>)"
      "\<forall>c. left en = Some c \<longrightarrow> mem tree' c = map_option (\<lambda>x. x\<lparr>parent := Some node\<rparr>) (mem tree c)"
      "\<forall>p. parent n = Some p \<longrightarrow>
                mem tree' p = map_option (\<lambda>x. if left x = Some node then x\<lparr>left := Some e\<rparr>
                                         else x\<lparr>right := Some e\<rparr>) (mem tree p)"
      "\<forall>x. x \<noteq> node \<and> x \<noteq> e \<and> left en \<noteq> Some x \<and> parent n \<noteq> Some x \<longrightarrow> mem tree' x = mem tree x"
    by blast
  have lk': "linked (mem tree') None (rot_at LEFT node t)"
    by (rule rot_at_linked_LEFT [OF lk ds a _ n e en(2) t'(4-8)]) simp
  have "root tree' = top (rot_at LEFT node t)"
  proof (cases "parent n")
    case None
    then have "top t = Some node" using root_facts [OF lk ds a n] by simp
    then have "top (rot_at LEFT node t) = Some e" by (rule top_rot_at_LEFT [OF lk _ n e])
    then show ?thesis using t'(3) None by simp
  next
    case (Some p)
    then have "top t \<noteq> Some node" using root_facts [OF lk ds a n] by simp
    then have "top (rot_at LEFT node t) = top t" by (rule top_rot_at)
    then show ?thesis using t'(3) Some rt by simp
  qed
  with t' lk' en(2) show ?thesis by blast
qed

lemma rotate_shape_RIGHT:
  assumes rt: "root tree = top t" and lk: "linked (mem tree) None t" and ds: "distinct (nodes t)"
    and a: "node \<in> set (nodes t)" and n: "mem tree node = Some n" and e: "left n = Some e"
  shows "\<exists>tree' en. mem tree e = Some en \<and> rotate tree node RIGHT = Some tree' \<and>
           comp tree' = comp tree \<and>
           root tree' = top (rot_at RIGHT node t) \<and>
           linked (mem tree') None (rot_at RIGHT node t) \<and>
           root tree' = (if parent n = None then Some e else root tree) \<and>
           mem tree' node = Some (n\<lparr>left := right en, parent := Some e\<rparr>) \<and>
           mem tree' e = Some (en\<lparr>parent := parent n, right := Some node\<rparr>) \<and>
           (\<forall>c. right en = Some c \<longrightarrow> mem tree' c = map_option (\<lambda>x. x\<lparr>parent := Some node\<rparr>) (mem tree c)) \<and>
           (\<forall>p. parent n = Some p \<longrightarrow>
                mem tree' p = map_option (\<lambda>x. if left x = Some node then x\<lparr>left := Some e\<rparr>
                                         else x\<lparr>right := Some e\<rparr>) (mem tree p)) \<and>
           (\<forall>x. x \<noteq> node \<and> x \<noteq> e \<and> right en \<noteq> Some x \<and> parent n \<noteq> Some x \<longrightarrow> mem tree' x = mem tree x)"
proof -
  from child_facts [OF lk ds a n, of e] e obtain en where
    en: "e \<in> set (nodes t)" "mem tree e = Some en" "parent en = Some node"
      "depth t e = Suc (depth t node)" "e \<noteq> node"
    by auto
  have p: "\<forall>p. parent n = Some p \<longrightarrow> p \<noteq> node \<and> p \<noteq> e \<and> mem tree p \<noteq> None"
  proof (intro allI impI)
    fix p assume "parent n = Some p"
    from parent_facts [OF lk ds a n this] en(4)
    show "p \<noteq> node \<and> p \<noteq> e \<and> mem tree p \<noteq> None" by auto
  qed
  have c: "\<forall>c. right en = Some c \<longrightarrow> c \<noteq> node \<and> c \<noteq> e \<and> parent n \<noteq> Some c \<and> mem tree c \<noteq> None"
  proof (intro allI impI)
    fix c assume c: "right en = Some c"
    from child_facts [OF lk ds en(1,2), of c] c
    have *: "depth t c = Suc (depth t e)" "c \<noteq> e" "mem tree c \<noteq> None" by auto
    have "parent n \<noteq> Some c"
    proof
      assume "parent n = Some c"
      from parent_facts [OF lk ds a n this] * en(4) show False by simp
    qed
    with * en(4) show "c \<noteq> node \<and> c \<noteq> e \<and> parent n \<noteq> Some c \<and> mem tree c \<noteq> None" by auto
  qed
  from rotate_RIGHT_result [OF n e en(2) en(5) p c] obtain tree' where
    t': "rotate tree node RIGHT = Some tree'" "comp tree' = comp tree"
      "root tree' = (if parent n = None then Some e else root tree)"
      "mem tree' node = Some (n\<lparr>left := right en, parent := Some e\<rparr>)"
      "mem tree' e = Some (en\<lparr>parent := parent n, right := Some node\<rparr>)"
      "\<forall>c. right en = Some c \<longrightarrow> mem tree' c = map_option (\<lambda>x. x\<lparr>parent := Some node\<rparr>) (mem tree c)"
      "\<forall>p. parent n = Some p \<longrightarrow>
                mem tree' p = map_option (\<lambda>x. if left x = Some node then x\<lparr>left := Some e\<rparr>
                                         else x\<lparr>right := Some e\<rparr>) (mem tree p)"
      "\<forall>x. x \<noteq> node \<and> x \<noteq> e \<and> right en \<noteq> Some x \<and> parent n \<noteq> Some x \<longrightarrow> mem tree' x = mem tree x"
    by blast
  have slot: "\<forall>p. parent n = Some p \<longrightarrow>
                mem tree' p = map_option (\<lambda>x. if right x = Some node then x\<lparr>right := Some e\<rparr>
                                         else x\<lparr>left := Some e\<rparr>) (mem tree p)"
  proof (intro allI impI)
    fix p assume pp: "parent n = Some p"
    from parent_facts [OF lk ds a n pp] obtain pn where
      pn: "p \<in> set (nodes t)" "mem tree p = Some pn" "left pn = Some node \<or> right pn = Some node"
      by auto
    have "left pn = Some node \<longleftrightarrow> right pn \<noteq> Some node"
      using pn(3) children_distinct [OF lk ds pn(1,2), of node] by auto
    then show "mem tree' p = map_option (\<lambda>x. if right x = Some node then x\<lparr>right := Some e\<rparr>
                                         else x\<lparr>left := Some e\<rparr>) (mem tree p)"
      using t'(7) pp pn(2) by simp
  qed
  have lk': "linked (mem tree') None (rot_at RIGHT node t)"
    by (rule rot_at_linked_RIGHT [OF lk ds a _ n e en(2) t'(4-6) slot t'(8)]) simp
  have "root tree' = top (rot_at RIGHT node t)"
  proof (cases "parent n")
    case None
    then have "top t = Some node" using root_facts [OF lk ds a n] by simp
    then have "top (rot_at RIGHT node t) = Some e" by (rule top_rot_at_RIGHT [OF lk _ n e])
    then show ?thesis using t'(3) None by simp
  next
    case (Some p)
    then have "top t \<noteq> Some node" using root_facts [OF lk ds a n] by simp
    then have "top (rot_at RIGHT node t) = top t" by (rule top_rot_at)
    then show ?thesis using t'(3) Some rt by simp
  qed
  with t' lk' en(2) show ?thesis by blast
qed

lemma rotate_shape_fields_LEFT:
  assumes n: "mem tree node = Some n" and en: "mem tree e = Some en" and ne: "e \<noteq> node"
    and t4: "mem tree' node = Some (n\<lparr>right := left en, parent := Some e\<rparr>)"
    and t5: "mem tree' e = Some (en\<lparr>parent := parent n, left := Some node\<rparr>)"
    and t6: "\<forall>c. left en = Some c \<longrightarrow> mem tree' c = map_option (\<lambda>x. x\<lparr>parent := Some node\<rparr>) (mem tree c)"
    and t7: "\<forall>p. parent n = Some p \<longrightarrow>
                mem tree' p = map_option (\<lambda>x. if left x = Some node then x\<lparr>left := Some e\<rparr>
                                         else x\<lparr>right := Some e\<rparr>) (mem tree p)"
    and t8: "\<forall>x. x \<noteq> node \<and> x \<noteq> e \<and> left en \<noteq> Some x \<and> parent n \<noteq> Some x \<longrightarrow> mem tree' x = mem tree x"
  shows "map_option contents (mem tree' a) = map_option contents (mem tree a) \<and>
         map_option color (mem tree' a) = map_option color (mem tree a) \<and>
         map_option refcount (mem tree' a) = map_option refcount (mem tree a)"
proof -
  consider "a = node" | "a = e" | "a \<noteq> node" "a \<noteq> e" "left en = Some a"
    | "a \<noteq> node" "a \<noteq> e" "left en \<noteq> Some a" "parent n = Some a"
    | "a \<noteq> node" "a \<noteq> e" "left en \<noteq> Some a" "parent n \<noteq> Some a"
    by blast
  then show ?thesis
  proof cases
    case 1 then show ?thesis using n t4 by simp
  next
    case 2 then show ?thesis using en t5 by simp
  next
    case 3 then show ?thesis using t6 by (cases "mem tree a") auto
  next
    case 4 then show ?thesis using t7 by (cases "mem tree a") auto
  next
    case 5 then show ?thesis using t8 by simp
  qed
qed

lemma rotate_shape_fields_RIGHT:
  assumes n: "mem tree node = Some n" and en: "mem tree e = Some en" and ne: "e \<noteq> node"
    and t4: "mem tree' node = Some (n\<lparr>left := right en, parent := Some e\<rparr>)"
    and t5: "mem tree' e = Some (en\<lparr>parent := parent n, right := Some node\<rparr>)"
    and t6: "\<forall>c. right en = Some c \<longrightarrow> mem tree' c = map_option (\<lambda>x. x\<lparr>parent := Some node\<rparr>) (mem tree c)"
    and t7: "\<forall>p. parent n = Some p \<longrightarrow>
                mem tree' p = map_option (\<lambda>x. if left x = Some node then x\<lparr>left := Some e\<rparr>
                                         else x\<lparr>right := Some e\<rparr>) (mem tree p)"
    and t8: "\<forall>x. x \<noteq> node \<and> x \<noteq> e \<and> right en \<noteq> Some x \<and> parent n \<noteq> Some x \<longrightarrow> mem tree' x = mem tree x"
  shows "map_option contents (mem tree' a) = map_option contents (mem tree a) \<and>
         map_option color (mem tree' a) = map_option color (mem tree a) \<and>
         map_option refcount (mem tree' a) = map_option refcount (mem tree a)"
proof -
  consider "a = node" | "a = e" | "a \<noteq> node" "a \<noteq> e" "right en = Some a"
    | "a \<noteq> node" "a \<noteq> e" "right en \<noteq> Some a" "parent n = Some a"
    | "a \<noteq> node" "a \<noteq> e" "right en \<noteq> Some a" "parent n \<noteq> Some a"
    by blast
  then show ?thesis
  proof cases
    case 1 then show ?thesis using n t4 by simp
  next
    case 2 then show ?thesis using en t5 by simp
  next
    case 3 then show ?thesis using t6 by (cases "mem tree a") auto
  next
    case 4 then show ?thesis using t7 by (cases "mem tree a") auto
  next
    case 5 then show ?thesis using t8 by simp
  qed
qed

text \<open>
  C6: in a tree whose pointers form a shape \<open>t\<close> (every parent back-reference right), a
  rotation at a node that has a child \<open>e\<close> on the side opposite to the direction returns
  a tree whose pointers form the rotated shape: the in-order traversal (of nodes and of
  contents) is the same, \<open>e\<close> takes the place of the pivot (it is the root when the pivot
  was the root, otherwise it is in the child slot of the pivot's parent that held the
  pivot), the pivot is the child of \<open>e\<close> on the side of the direction, and every parent
  back-reference equals the structural parent again.
\<close>

theorem rotate_preserves_inorder:
  assumes "tree_shape tree t" and "node \<in> set (nodes t)"
    and "fld tree node (if d = LEFT then right else left) = Some (Some e)"
  shows "\<exists>tree'. rotate tree node d = Some tree' \<and>
           tree_shape tree' (rot_at d node t) \<and> nodes (rot_at d node t) = nodes t \<and>
           map (\<lambda>a. fld tree' a contents) (nodes (rot_at d node t))
             = map (\<lambda>a. fld tree a contents) (nodes t) \<and>
           fld tree' e parent = fld tree node parent \<and>
           fld tree' node parent = Some (Some e) \<and>
           fld tree' e (if d = LEFT then left else right) = Some (Some node) \<and>
           (fld tree node parent = Some None \<longrightarrow> root tree' = Some e) \<and>
           (\<forall>p. fld tree node parent = Some (Some p) \<longrightarrow>
                root tree' = root tree \<and>
                (if fld tree p left = Some (Some node)
                 then fld tree' p left = Some (Some e) \<and> fld tree' p right = fld tree p right
                 else fld tree' p right = Some (Some e) \<and> fld tree' p left = fld tree p left)) \<and>
           (\<forall>a. fld tree' a contents = fld tree a contents \<and> fld tree' a color = fld tree a color) \<and>
           comp tree' = comp tree"
proof -
  from assms(1) have rt: "root tree = top t" and lk: "linked (mem tree) None t"
    and ds: "distinct (nodes t)"
    by (simp_all add: tree_shape_def)
  show ?thesis
  proof (cases d)
    case LEFT
    with assms(3) obtain n where n: "mem tree node = Some n" and e: "right n = Some e"
      by (auto simp: fld_def)
    from rotate_shape_LEFT [OF rt lk ds assms(2) n e] obtain tree' en where
      en: "mem tree e = Some en" and
      t': "rotate tree node LEFT = Some tree'" "comp tree' = comp tree"
        "root tree' = top (rot_at LEFT node t)"
        "linked (mem tree') None (rot_at LEFT node t)"
        "root tree' = (if parent n = None then Some e else root tree)" and
      u: "mem tree' node = Some (n\<lparr>right := left en, parent := Some e\<rparr>)"
        "mem tree' e = Some (en\<lparr>parent := parent n, left := Some node\<rparr>)"
        "\<forall>c. left en = Some c \<longrightarrow> mem tree' c = map_option (\<lambda>x. x\<lparr>parent := Some node\<rparr>) (mem tree c)"
        "\<forall>p. parent n = Some p \<longrightarrow>
                mem tree' p = map_option (\<lambda>x. if left x = Some node then x\<lparr>left := Some e\<rparr>
                                         else x\<lparr>right := Some e\<rparr>) (mem tree p)"
        "\<forall>x. x \<noteq> node \<and> x \<noteq> e \<and> left en \<noteq> Some x \<and> parent n \<noteq> Some x \<longrightarrow> mem tree' x = mem tree x"
      by blast
    from child_facts [OF lk ds assms(2) n, of e] e have ne: "e \<noteq> node" by simp
    have same: "fld tree' a contents = fld tree a contents \<and> fld tree' a color = fld tree a color" for a
      using rotate_shape_fields_LEFT [OF n en ne u, of a] by (simp add: fld_def)
    have shape': "tree_shape tree' (rot_at LEFT node t)"
      using t'(3,4) ds by (simp add: tree_shape_def nodes_rot_at)
    have slot: "root tree' = root tree \<and>
                (if fld tree p left = Some (Some node)
                 then fld tree' p left = Some (Some e) \<and> fld tree' p right = fld tree p right
                 else fld tree' p right = Some (Some e) \<and> fld tree' p left = fld tree p left)"
      if "fld tree node parent = Some (Some p)" for p
    proof -
      from that n have pp: "parent n = Some p" by (simp add: fld_def)
      from parent_facts [OF lk ds assms(2) n pp] obtain pn where "mem tree p = Some pn" by auto
      then show ?thesis using u(4) pp t'(5) by (simp add: fld_def)
    qed
    have f: "fld tree' e parent = fld tree node parent" "fld tree' node parent = Some (Some e)"
      "fld tree' e left = Some (Some node)"
      "fld tree node parent = Some None \<longrightarrow> root tree' = Some e"
      using u(1,2) n t'(5) by (simp_all add: fld_def)
    have m: "map (\<lambda>a. fld tree' a contents) (nodes (rot_at LEFT node t))
             = map (\<lambda>a. fld tree a contents) (nodes t)"
      using same by (simp add: nodes_rot_at)
    have "rotate tree node LEFT = Some tree' \<and>
           tree_shape tree' (rot_at LEFT node t) \<and> nodes (rot_at LEFT node t) = nodes t \<and>
           map (\<lambda>a. fld tree' a contents) (nodes (rot_at LEFT node t))
             = map (\<lambda>a. fld tree a contents) (nodes t) \<and>
           fld tree' e parent = fld tree node parent \<and>
           fld tree' node parent = Some (Some e) \<and>
           fld tree' e left = Some (Some node) \<and>
           (fld tree node parent = Some None \<longrightarrow> root tree' = Some e) \<and>
           (\<forall>p. fld tree node parent = Some (Some p) \<longrightarrow>
                root tree' = root tree \<and>
                (if fld tree p left = Some (Some node)
                 then fld tree' p left = Some (Some e) \<and> fld tree' p right = fld tree p right
                 else fld tree' p right = Some (Some e) \<and> fld tree' p left = fld tree p left)) \<and>
           (\<forall>a. fld tree' a contents = fld tree a contents \<and> fld tree' a color = fld tree a color) \<and>
           comp tree' = comp tree"
      using t'(1,2) shape' same slot f m nodes_rot_at [of LEFT node t] by blast
    then show ?thesis unfolding LEFT by (intro exI [of _ tree']) simp
  next
    case RIGHT
    with assms(3) obtain n where n: "mem tree node = Some n" and e: "left n = Some e"
      by (auto simp: fld_def)
    from rotate_shape_RIGHT [OF rt lk ds assms(2) n e] obtain tree' en where
      en: "mem tree e = Some en" and
      t': "rotate tree node RIGHT = Some tree'" "comp tree' = comp tree"
        "root tree' = top (rot_at RIGHT node t)"
        "linked (mem tree') None (rot_at RIGHT node t)"
        "root tree' = (if parent n = None then Some e else root tree)" and
      u: "mem tree' node = Some (n\<lparr>left := right en, parent := Some e\<rparr>)"
        "mem tree' e = Some (en\<lparr>parent := parent n, right := Some node\<rparr>)"
        "\<forall>c. right en = Some c \<longrightarrow> mem tree' c = map_option (\<lambda>x. x\<lparr>parent := Some node\<rparr>) (mem tree c)"
        "\<forall>p. parent n = Some p \<longrightarrow>
                mem tree' p = map_option (\<lambda>x. if left x = Some node then x\<lparr>left := Some e\<rparr>
                                         else x\<lparr>right := Some e\<rparr>) (mem tree p)"
        "\<forall>x. x \<noteq> node \<and> x \<noteq> e \<and> right en \<noteq> Some x \<and> parent n \<noteq> Some x \<longrightarrow> mem tree' x = mem tree x"
      by blast
    from child_facts [OF lk ds assms(2) n, of e] e have ne: "e \<noteq> node" by simp
    have same: "fld tree' a contents = fld tree a contents \<and> fld tree' a color = fld tree a color" for a
      using rotate_shape_fields_RIGHT [OF n en ne u, of a] by (simp add: fld_def)
    have shape': "tree_shape tree' (rot_at RIGHT node t)"
      using t'(3,4) ds by (simp add: tree_shape_def nodes_rot_at)
    have slot: "root tree' = root tree \<and>
                (if fld tree p left = Some (Some node)
                 then fld tree' p left = Some (Some e) \<and> fld tree' p right = fld tree p right
                 else fld tree' p right = Some (Some e) \<and> fld tree' p left = fld tree p left)"
      if "fld tree node parent = Some (Some p)" for p
    proof -
      from that n have pp: "parent n = Some p" by (simp add: fld_def)
      from parent_facts [OF lk ds assms(2) n pp] obtain pn where "mem tree p = Some pn" by auto
      then show ?thesis using u(4) pp t'(5) by (simp add: fld_def)
    qed
    have f: "fld tree' e parent = fld tree node parent" "fld tree' node parent = Some (Some e)"
      "fld tree' e right = Some (Some node)"
      "fld tree node parent = Some None \<longrightarrow> root tree' = Some e"
      using u(1,2) n t'(5) by (simp_all add: fld_def)
    have m: "map (\<lambda>a. fld tree' a contents) (nodes (rot_at RIGHT node t))
             = map (\<lambda>a. fld tree a contents) (nodes t)"
      using same by (simp add: nodes_rot_at)
    have "rotate tree node RIGHT = Some tree' \<and>
           tree_shape tree' (rot_at RIGHT node t) \<and> nodes (rot_at RIGHT node t) = nodes t \<and>
           map (\<lambda>a. fld tree' a contents) (nodes (rot_at RIGHT node t))
             = map (\<lambda>a. fld tree a contents) (nodes t) \<and>
           fld tree' e parent = fld tree node parent \<and>
           fld tree' node parent = Some (Some e) \<and>
           fld tree' e right = Some (Some node) \<and>
           (fld tree node parent = Some None \<longrightarrow> root tree' = Some e) \<and>
           (\<forall>p. fld tree node parent = Some (Some p) \<longrightarrow>
                root tree' = root tree \<and>
                (if fld tree p left = Some (Some node)
                 then fld tree' p left = Some (Some e) \<and> fld tree' p right = fld tree p right
                 else fld tree' p right = Some (Some e) \<and> fld tree' p left = fld tree p left)) \<and>
           (\<forall>a. fld tree' a contents = fld tree a contents \<and> fld tree' a color = fld tree a color) \<and>
           comp tree' = comp tree"
      using t'(1,2) shape' same slot f m nodes_rot_at [of RIGHT node t] by blast
    then show ?thesis unfolding RIGHT by (intro exI [of _ tree']) simp
  qed
qed

theorem rotate_preserves_inorder_witness:
  "tree_shape example_tree example_shape \<and> 1 \<in> set (nodes example_shape) \<and>
   fld example_tree 1 right = Some (Some 3) \<and>
   (\<exists>tree'. rotate example_tree 1 LEFT = Some tree' \<and>
      tree_shape tree' (Node (Node (Node Leaf 2 Leaf) 1 Leaf) 3 Leaf) \<and>
      nodes (rot_at LEFT 1 example_shape) = [2, 1, 3] \<and> root tree' = Some 3 \<and>
      fld tree' 3 parent = Some None \<and> fld tree' 1 parent = Some (Some 3) \<and>
      fld tree' 3 left = Some (Some 1))"
proof -
  have h1: "tree_shape example_tree example_shape"
    by (simp add: tree_shape_def example_tree_def example_shape_def linked.simps)
  have h2: "1 \<in> set (nodes example_shape)" by (simp add: example_shape_def)
  have h3: "fld example_tree 1 (if LEFT = LEFT then right else left) = Some (Some 3)"
    by (simp add: fld_def example_tree_def)
  have r: "rot_at LEFT 1 example_shape = Node (Node (Node Leaf 2 Leaf) 1 Leaf) 3 Leaf"
    by (simp add: example_shape_def)
  have p: "fld example_tree 1 parent = Some None" by (simp add: fld_def example_tree_def)
  show ?thesis
    using h1 h2 h3 rotate_preserves_inorder [OF h1 h2 h3] r p
    by (auto simp: example_shape_def)
qed

section \<open>Lookup in an ordered tree\<close>

lemma comparator_flip: "total_order_comparator c \<Longrightarrow> c a b \<le> 0 \<Longrightarrow> 0 \<le> c b a"
  unfolding total_order_comparator_def by (metis not_le)

lemma comparator_sym: "total_order_comparator c \<Longrightarrow> c a b = 0 \<Longrightarrow> c b a = 0"
  unfolding total_order_comparator_def by (metis less_irrefl linorder_neqE_linordered_idom)

lemma comparator_trans:
  "total_order_comparator c \<Longrightarrow> c a b \<le> 0 \<Longrightarrow> c b d \<le> 0 \<Longrightarrow> c a d \<le> 0"
  unfolding total_order_comparator_def by blast

lemma unbox_comparator_total: "total_order_comparator unbox_comparator"
  by (auto simp: total_order_comparator_def unbox_comparator_def)

lemma default_comparator_total: "total_order_comparator rbt_default_comparator"
  by (auto simp: total_order_comparator_def rbt_default_comparator_def)

lemma rbt_lookup_node_sorted:
  assumes c: "total_order_comparator (comp tree)"
    and "linked (mem tree) par s"
    and "sorted_wrt (\<lambda>a b. comp tree (key tree a) (key tree b) \<le> 0) (nodes s)"
  shows "(\<exists>a. rbt_lookup_node tree (top s) k = Some (Some a) \<and> a \<in> set (nodes s) \<and>
              comp tree k (key tree a) = 0) \<or>
         (rbt_lookup_node tree (top s) k = Some None \<and>
          (\<forall>a \<in> set (nodes s). comp tree k (key tree a) \<noteq> 0))"
  using assms(2,3)
proof (induction s arbitrary: par)
  case Leaf
  show ?case by (subst rbt_lookup_node.simps) simp
next
  case (Node l x r)
  from Node.prems(1) obtain n where n: "mem tree x = Some n" "left n = top l" "right n = top r"
      "linked (mem tree) (Some x) l" "linked (mem tree) (Some x) r"
    by (auto simp: linked_Node)
  have kx: "key tree x = contents n" using n by (simp add: key_def)
  from Node.prems(2) have
    sl: "sorted_wrt (\<lambda>a b. comp tree (key tree a) (key tree b) \<le> 0) (nodes l)" and
    sr: "sorted_wrt (\<lambda>a b. comp tree (key tree a) (key tree b) \<le> 0) (nodes r)" and
    lx: "\<forall>a \<in> set (nodes l). comp tree (key tree a) (key tree x) \<le> 0" and
    xr: "\<forall>b \<in> set (nodes r). comp tree (key tree x) (key tree b) \<le> 0"
    by (auto simp: sorted_wrt_append)
  consider (eq) "comp tree k (contents n) = 0" | (gt) "comp tree k (contents n) > 0"
    | (lt) "comp tree k (contents n) < 0"
    by linarith
  then show ?case
  proof cases
    case eq
    then have "rbt_lookup_node tree (top (Node l x r)) k = Some (Some x)"
      using n by (subst rbt_lookup_node.simps) (simp add: fld_def)
    then show ?thesis using eq kx by simp
  next
    case gt
    then have step: "rbt_lookup_node tree (top (Node l x r)) k = rbt_lookup_node tree (top r) k"
      using n by (subst rbt_lookup_node.simps) (simp add: fld_def)
    have nl: "comp tree k (key tree a) \<noteq> 0" if "a \<in> set (nodes l)" for a
    proof
      assume "comp tree k (key tree a) = 0"
      then have "comp tree k (key tree x) \<le> 0"
        using comparator_trans [OF c, of k "key tree a" "key tree x"] lx that by simp
      then show False using gt kx by simp
    qed
    from Node.IH(2) [OF n(5) sr] show ?thesis
      unfolding step using nl gt kx by auto
  next
    case lt
    then have step: "rbt_lookup_node tree (top (Node l x r)) k = rbt_lookup_node tree (top l) k"
      using n by (subst rbt_lookup_node.simps) (simp add: fld_def)
    have nr: "comp tree k (key tree b) \<noteq> 0" if "b \<in> set (nodes r)" for b
    proof
      assume "comp tree k (key tree b) = 0"
      then have "comp tree (key tree b) k = 0" by (rule comparator_sym [OF c])
      then have "comp tree (key tree x) k \<le> 0"
        using comparator_trans [OF c, of "key tree x" "key tree b" k] xr that by simp
      then have "0 \<le> comp tree k (key tree x)" by (rule comparator_flip [OF c])
      then show False using lt kx by simp
    qed
    from Node.IH(1) [OF n(4) sl] show ?thesis
      unfolding step using nr lt kx by auto
  qed
qed

section \<open>Insertion\<close>

subsection \<open>Recoloring and rebalancing keep the shape linked\<close>

lemma same_data_refl: "same_data tree tree"
  by (simp add: same_data_def)

lemma same_data_trans: "same_data t1 t2 \<Longrightarrow> same_data t2 t3 \<Longrightarrow> same_data t1 t3"
  by (simp add: same_data_def)

lemma store_live: "mem tree a = Some n \<Longrightarrow> store a f tree = Some (tree\<lparr>mem := (mem tree)(a \<mapsto> f n)\<rparr>)"
  by (simp add: store_def)

lemma tree_shape_recolor:
  assumes "tree_shape tree t" "mem tree a = Some n"
  shows "tree_shape (tree\<lparr>mem := (mem tree)(a \<mapsto> n\<lparr>color := c\<rparr>)\<rparr>) t"
proof -
  have "linked ((mem tree)(a \<mapsto> n\<lparr>color := c\<rparr>)) None t"
    using assms by (auto intro!: linked_frame [of "mem tree"] simp: tree_shape_def links_def)
  then show ?thesis using assms by (simp add: tree_shape_def)
qed

lemma same_data_recolor:
  assumes "mem tree a = Some n"
  shows "same_data tree (tree\<lparr>mem := (mem tree)(a \<mapsto> n\<lparr>color := c\<rparr>)\<rparr>)"
  using assms by (simp add: same_data_def)

text \<open>The root of a shaped tree, when there is one.\<close>
lemma root_node:
  assumes "tree_shape tree t" "root tree = Some r"
  shows "r \<in> set (nodes t) \<and> (\<exists>rn. mem tree r = Some rn \<and> parent rn = None)"
  using assms linked_top_parent [of "mem tree" None t r] top_in_nodes [of t r]
  by (auto simp: tree_shape_def)

lemma other_child_LEFT:
  assumes "tree_shape tree t" "a \<in> set (nodes t)" "mem tree a = Some n" "left n = Some c"
  shows "right n \<noteq> Some c"
  using assms children_distinct [of "mem tree" t a n c] by (simp add: tree_shape_def)

lemma other_child_RIGHT:
  assumes "tree_shape tree t" "a \<in> set (nodes t)" "mem tree a = Some n" "right n = Some c"
  shows "left n \<noteq> Some c"
  using assms children_distinct [of "mem tree" t a n c] by (auto simp: tree_shape_def)

lemma ins_rebalance_LEFT:
  assumes sh: "tree_shape tree t" and a: "node \<in> set (nodes t)"
    and nn: "mem tree node = Some nn" "parent nn = Some p"
    and pn: "mem tree p = Some pn" "parent pn = Some g"
    and gn: "mem tree g = Some gn" "left gn = Some p"
    and rc: "node_color tree (root tree) = Some BLACK"
  shows "\<exists>tree' t'. rbt_ins_rebalance tree node LEFT = Some tree' \<and> tree_shape tree' t' \<and>
           nodes t' = nodes t \<and> node_color tree' (root tree') = Some BLACK \<and>
           same_data tree tree'"
proof -
  from sh have rt: "root tree = top t" and lk: "linked (mem tree) None t"
    and ds: "distinct (nodes t)"
    by (simp_all add: tree_shape_def)
  from parent_facts [OF lk ds a nn] have p: "p \<in> set (nodes t)" "p \<noteq> node" by auto
  from parent_facts [OF lk ds p(1) pn] have g: "g \<in> set (nodes t)" "g \<noteq> p" by auto
  from rotate_shape_RIGHT [OF rt lk ds g(1) gn] obtain tree1 pn' where
    pn': "mem tree p = Some pn'" and
    t1: "rotate tree g RIGHT = Some tree1" "comp tree1 = comp tree"
      "root tree1 = top (rot_at RIGHT g t)"
      "linked (mem tree1) None (rot_at RIGHT g t)"
      "root tree1 = (if parent gn = None then Some p else root tree)" and
    u: "mem tree1 g = Some (gn\<lparr>left := right pn', parent := Some p\<rparr>)"
      "mem tree1 p = Some (pn'\<lparr>parent := parent gn, right := Some g\<rparr>)"
      "\<forall>c. right pn' = Some c \<longrightarrow> mem tree1 c = map_option (\<lambda>x. x\<lparr>parent := Some g\<rparr>) (mem tree c)"
      "\<forall>q. parent gn = Some q \<longrightarrow>
                mem tree1 q = map_option (\<lambda>x. if left x = Some g then x\<lparr>left := Some p\<rparr>
                                         else x\<lparr>right := Some p\<rparr>) (mem tree q)"
      "\<forall>x. x \<noteq> g \<and> x \<noteq> p \<and> right pn' \<noteq> Some x \<and> parent gn \<noteq> Some x \<longrightarrow> mem tree1 x = mem tree x"
    by blast
  from pn pn' have [simp]: "pn' = pn" by simp
  have fields: "map_option contents (mem tree1 x) = map_option contents (mem tree x) \<and>
         map_option color (mem tree1 x) = map_option color (mem tree x) \<and>
         map_option refcount (mem tree1 x) = map_option refcount (mem tree x)" for x
    using rotate_shape_fields_RIGHT [OF gn(1) pn' _ u, of x] g by simp
  have sh1: "tree_shape tree1 (rot_at RIGHT g t)"
    using t1(3,4) ds by (simp add: tree_shape_def nodes_rot_at)
  define tree2 where "tree2 = tree1\<lparr>mem := (mem tree1)(p \<mapsto> (pn\<lparr>parent := parent gn, right := Some g\<rparr>)\<lparr>color := BLACK\<rparr>)\<rparr>"
  define tree3 where "tree3 = tree2\<lparr>mem := (mem tree2)(g \<mapsto> (gn\<lparr>left := right pn, parent := Some p\<rparr>)\<lparr>color := RED\<rparr>)\<rparr>"
  have m2g: "mem tree2 g = Some (gn\<lparr>left := right pn, parent := Some p\<rparr>)"
    using u(1) g by (simp add: tree2_def)
  have run: "rbt_ins_rebalance tree node LEFT = Some tree3"
    using nn pn t1(1) u(1,2) g m2g
    by (simp add: rbt_ins_rebalance_def fld_def store_def tree2_def tree3_def)
  have sh2: "tree_shape tree2 (rot_at RIGHT g t)"
    unfolding tree2_def using u(2) by (intro tree_shape_recolor [OF sh1]) simp
  have sh3: "tree_shape tree3 (rot_at RIGHT g t)"
    unfolding tree3_def by (rule tree_shape_recolor [OF sh2 m2g])
  have "same_data tree tree1" using fields t1(2) by (simp add: same_data_def)
  moreover have "same_data tree1 tree2"
    unfolding tree2_def using u(2) by (intro same_data_recolor) simp
  moreover have "same_data tree2 tree3"
    unfolding tree3_def by (rule same_data_recolor [OF m2g])
  ultimately have sd: "same_data tree tree3" by (blast intro: same_data_trans)
  have "node_color tree3 (root tree3) = Some BLACK"
  proof (cases "parent gn")
    case None
    then have "root tree3 = Some p" using t1(5) by (simp add: tree3_def tree2_def)
    then show ?thesis using g by (simp add: node_color_def fld_def tree3_def tree2_def)
  next
    case (Some q)
    then have r3: "root tree3 = root tree" using t1(5) by (simp add: tree3_def tree2_def)
    show ?thesis
    proof (cases "root tree")
      case None
      then show ?thesis using r3 by (simp add: node_color_def)
    next
      case rr: (Some r)
      from root_node [OF sh rr] obtain rn where rn: "mem tree r = Some rn" "parent rn = None"
        by auto
      have "r \<noteq> p" "r \<noteq> g" using rn pn gn Some by auto
      moreover have "map_option color (mem tree1 r) = Some BLACK"
        using fields [of r] rc rr by (simp add: node_color_def fld_def)
      ultimately show ?thesis using r3 rr
        by (simp add: node_color_def fld_def tree3_def tree2_def)
    qed
  qed
  with run sh3 sd show ?thesis by (auto simp: nodes_rot_at)
qed

lemma ins_inside_LEFT:
  assumes sh: "tree_shape tree t" and a: "node \<in> set (nodes t)"
    and nn: "mem tree node = Some nn" "parent nn = Some p"
    and pn: "mem tree p = Some pn" "parent pn = Some g" "right pn = Some node"
    and gn: "mem tree g = Some gn" "left gn = Some p"
    and rc: "node_color tree (root tree) = Some BLACK"
  shows "\<exists>tree1 tree' t'. rotate tree p LEFT = Some tree1 \<and>
           rbt_ins_rebalance tree1 p LEFT = Some tree' \<and> tree_shape tree' t' \<and>
           nodes t' = nodes t \<and> node_color tree' (root tree') = Some BLACK \<and>
           same_data tree tree'"
proof -
  from sh have rt: "root tree = top t" and lk: "linked (mem tree) None t"
    and ds: "distinct (nodes t)"
    by (simp_all add: tree_shape_def)
  from parent_facts [OF lk ds a nn] have p: "p \<in> set (nodes t)" "p \<noteq> node" by auto
  from parent_facts [OF lk ds p(1) pn(1,2)] have g: "g \<in> set (nodes t)" "g \<noteq> p"
    "Suc (depth t g) = depth t p" by auto
  from parent_facts [OF lk ds a nn] g have gnode: "g \<noteq> node" by auto
  from rotate_shape_LEFT [OF rt lk ds p(1) pn(1,3)] obtain tree1 nn' where
    nn': "mem tree node = Some nn'" and
    t1: "rotate tree p LEFT = Some tree1" "comp tree1 = comp tree"
      "root tree1 = top (rot_at LEFT p t)"
      "linked (mem tree1) None (rot_at LEFT p t)"
      "root tree1 = (if parent pn = None then Some node else root tree)" and
    u: "mem tree1 p = Some (pn\<lparr>right := left nn', parent := Some node\<rparr>)"
      "mem tree1 node = Some (nn'\<lparr>parent := parent pn, left := Some p\<rparr>)"
      "\<forall>c. left nn' = Some c \<longrightarrow> mem tree1 c = map_option (\<lambda>x. x\<lparr>parent := Some p\<rparr>) (mem tree c)"
      "\<forall>q. parent pn = Some q \<longrightarrow>
                mem tree1 q = map_option (\<lambda>x. if left x = Some p then x\<lparr>left := Some node\<rparr>
                                         else x\<lparr>right := Some node\<rparr>) (mem tree q)"
      "\<forall>x. x \<noteq> p \<and> x \<noteq> node \<and> left nn' \<noteq> Some x \<and> parent pn \<noteq> Some x \<longrightarrow> mem tree1 x = mem tree x"
    by blast
  have fields: "map_option contents (mem tree1 x) = map_option contents (mem tree x) \<and>
         map_option color (mem tree1 x) = map_option color (mem tree x) \<and>
         map_option refcount (mem tree1 x) = map_option refcount (mem tree x)" for x
    using rotate_shape_fields_LEFT [OF pn(1) nn' _ u, of x] p by simp
  have sh1: "tree_shape tree1 (rot_at LEFT p t)"
    using t1(3,4) ds by (simp add: tree_shape_def nodes_rot_at)
  have p1: "p \<in> set (nodes (rot_at LEFT p t))" using p by (simp add: nodes_rot_at)
  have "right gn \<noteq> Some p" by (rule other_child_LEFT [OF sh g(1) gn])
  then have m1g: "mem tree1 g = Some (gn\<lparr>left := Some node\<rparr>)"
    using u(4) pn(2) gn by simp
  have r1: "root tree1 = root tree" using t1(5) pn(2) by simp
  have rc1: "node_color tree1 (root tree1) = Some BLACK"
    using rc r1 fields by (cases "root tree") (auto simp: node_color_def fld_def)
  from ins_rebalance_LEFT [OF sh1 p1 u(1) _ u(2) _ m1g _ rc1] pn(2)
  obtain tree' t' where
    "rbt_ins_rebalance tree1 p LEFT = Some tree'" "tree_shape tree' t'"
    "nodes t' = nodes (rot_at LEFT p t)" "node_color tree' (root tree') = Some BLACK"
    "same_data tree1 tree'"
    by auto
  moreover have "same_data tree tree1" using fields t1(2) by (simp add: same_data_def)
  ultimately show ?thesis using t1(1) by (auto simp: nodes_rot_at intro: same_data_trans)
qed

lemma ins_rebalance_RIGHT:
  assumes sh: "tree_shape tree t" and a: "node \<in> set (nodes t)"
    and nn: "mem tree node = Some nn" "parent nn = Some p"
    and pn: "mem tree p = Some pn" "parent pn = Some g"
    and gn: "mem tree g = Some gn" "right gn = Some p"
    and rc: "node_color tree (root tree) = Some BLACK"
  shows "\<exists>tree' t'. rbt_ins_rebalance tree node RIGHT = Some tree' \<and> tree_shape tree' t' \<and>
           nodes t' = nodes t \<and> node_color tree' (root tree') = Some BLACK \<and>
           same_data tree tree'"
proof -
  from sh have rt: "root tree = top t" and lk: "linked (mem tree) None t"
    and ds: "distinct (nodes t)"
    by (simp_all add: tree_shape_def)
  from parent_facts [OF lk ds a nn] have p: "p \<in> set (nodes t)" "p \<noteq> node" by auto
  from parent_facts [OF lk ds p(1) pn] have g: "g \<in> set (nodes t)" "g \<noteq> p" by auto
  from rotate_shape_LEFT [OF rt lk ds g(1) gn] obtain tree1 pn' where
    pn': "mem tree p = Some pn'" and
    t1: "rotate tree g LEFT = Some tree1" "comp tree1 = comp tree"
      "root tree1 = top (rot_at LEFT g t)"
      "linked (mem tree1) None (rot_at LEFT g t)"
      "root tree1 = (if parent gn = None then Some p else root tree)" and
    u: "mem tree1 g = Some (gn\<lparr>right := left pn', parent := Some p\<rparr>)"
      "mem tree1 p = Some (pn'\<lparr>parent := parent gn, left := Some g\<rparr>)"
      "\<forall>c. left pn' = Some c \<longrightarrow> mem tree1 c = map_option (\<lambda>x. x\<lparr>parent := Some g\<rparr>) (mem tree c)"
      "\<forall>q. parent gn = Some q \<longrightarrow>
                mem tree1 q = map_option (\<lambda>x. if left x = Some g then x\<lparr>left := Some p\<rparr>
                                         else x\<lparr>right := Some p\<rparr>) (mem tree q)"
      "\<forall>x. x \<noteq> g \<and> x \<noteq> p \<and> left pn' \<noteq> Some x \<and> parent gn \<noteq> Some x \<longrightarrow> mem tree1 x = mem tree x"
    by blast
  from pn pn' have [simp]: "pn' = pn" by simp
  have fields: "map_option contents (mem tree1 x) = map_option contents (mem tree x) \<and>
         map_option color (mem tree1 x) = map_option color (mem tree x) \<and>
         map_option refcount (mem tree1 x) = map_option refcount (mem tree x)" for x
    using rotate_shape_fields_LEFT [OF gn(1) pn' _ u, of x] g by simp
  have sh1: "tree_shape tree1 (rot_at LEFT g t)"
    using t1(3,4) ds by (simp add: tree_shape_def nodes_rot_at)
  define tree2 where "tree2 = tree1\<lparr>mem := (mem tree1)(p \<mapsto> (pn\<lparr>parent := parent gn, left := Some g\<rparr>)\<lparr>color := BLACK\<rparr>)\<rparr>"
  define tree3 where "tree3 = tree2\<lparr>mem := (mem tree2)(g \<mapsto> (gn\<lparr>right := left pn, parent := Some p\<rparr>)\<lparr>color := RED\<rparr>)\<rparr>"
  have m2g: "mem tree2 g = Some (gn\<lparr>right := left pn, parent := Some p\<rparr>)"
    using u(1) g by (simp add: tree2_def)
  have run: "rbt_ins_rebalance tree node RIGHT = Some tree3"
    using nn pn t1(1) u(1,2) g m2g
    by (simp add: rbt_ins_rebalance_def fld_def store_def tree2_def tree3_def)
  have sh2: "tree_shape tree2 (rot_at LEFT g t)"
    unfolding tree2_def using u(2) by (intro tree_shape_recolor [OF sh1]) simp
  have sh3: "tree_shape tree3 (rot_at LEFT g t)"
    unfolding tree3_def by (rule tree_shape_recolor [OF sh2 m2g])
  have "same_data tree tree1" using fields t1(2) by (simp add: same_data_def)
  moreover have "same_data tree1 tree2"
    unfolding tree2_def using u(2) by (intro same_data_recolor) simp
  moreover have "same_data tree2 tree3"
    unfolding tree3_def by (rule same_data_recolor [OF m2g])
  ultimately have sd: "same_data tree tree3" by (blast intro: same_data_trans)
  have "node_color tree3 (root tree3) = Some BLACK"
  proof (cases "parent gn")
    case None
    then have "root tree3 = Some p" using t1(5) by (simp add: tree3_def tree2_def)
    then show ?thesis using g by (simp add: node_color_def fld_def tree3_def tree2_def)
  next
    case (Some q)
    then have r3: "root tree3 = root tree" using t1(5) by (simp add: tree3_def tree2_def)
    show ?thesis
    proof (cases "root tree")
      case None
      then show ?thesis using r3 by (simp add: node_color_def)
    next
      case ll: (Some l)
      from root_node [OF sh ll] obtain rn where rn: "mem tree l = Some rn" "parent rn = None"
        by auto
      have "l \<noteq> p" "l \<noteq> g" using rn pn gn Some by auto
      moreover have "map_option color (mem tree1 l) = Some BLACK"
        using fields [of l] rc ll by (simp add: node_color_def fld_def)
      ultimately show ?thesis using r3 ll
        by (simp add: node_color_def fld_def tree3_def tree2_def)
    qed
  qed
  with run sh3 sd show ?thesis by (auto simp: nodes_rot_at)
qed


lemma ins_inside_RIGHT:
  assumes sh: "tree_shape tree t" and a: "node \<in> set (nodes t)"
    and nn: "mem tree node = Some nn" "parent nn = Some p"
    and pn: "mem tree p = Some pn" "parent pn = Some g" "left pn = Some node"
    and gn: "mem tree g = Some gn" "right gn = Some p"
    and rc: "node_color tree (root tree) = Some BLACK"
  shows "\<exists>tree1 tree' t'. rotate tree p RIGHT = Some tree1 \<and>
           rbt_ins_rebalance tree1 p RIGHT = Some tree' \<and> tree_shape tree' t' \<and>
           nodes t' = nodes t \<and> node_color tree' (root tree') = Some BLACK \<and>
           same_data tree tree'"
proof -
  from sh have rt: "root tree = top t" and lk: "linked (mem tree) None t"
    and ds: "distinct (nodes t)"
    by (simp_all add: tree_shape_def)
  from parent_facts [OF lk ds a nn] have p: "p \<in> set (nodes t)" "p \<noteq> node" by auto
  from parent_facts [OF lk ds p(1) pn(1,2)] have g: "g \<in> set (nodes t)" "g \<noteq> p"
    "Suc (depth t g) = depth t p" by auto
  from parent_facts [OF lk ds a nn] g have gnode: "g \<noteq> node" by auto
  from rotate_shape_RIGHT [OF rt lk ds p(1) pn(1,3)] obtain tree1 nn' where
    nn': "mem tree node = Some nn'" and
    t1: "rotate tree p RIGHT = Some tree1" "comp tree1 = comp tree"
      "root tree1 = top (rot_at RIGHT p t)"
      "linked (mem tree1) None (rot_at RIGHT p t)"
      "root tree1 = (if parent pn = None then Some node else root tree)" and
    u: "mem tree1 p = Some (pn\<lparr>left := right nn', parent := Some node\<rparr>)"
      "mem tree1 node = Some (nn'\<lparr>parent := parent pn, right := Some p\<rparr>)"
      "\<forall>c. right nn' = Some c \<longrightarrow> mem tree1 c = map_option (\<lambda>x. x\<lparr>parent := Some p\<rparr>) (mem tree c)"
      "\<forall>q. parent pn = Some q \<longrightarrow>
                mem tree1 q = map_option (\<lambda>x. if left x = Some p then x\<lparr>left := Some node\<rparr>
                                         else x\<lparr>right := Some node\<rparr>) (mem tree q)"
      "\<forall>x. x \<noteq> p \<and> x \<noteq> node \<and> right nn' \<noteq> Some x \<and> parent pn \<noteq> Some x \<longrightarrow> mem tree1 x = mem tree x"
    by blast
  have fields: "map_option contents (mem tree1 x) = map_option contents (mem tree x) \<and>
         map_option color (mem tree1 x) = map_option color (mem tree x) \<and>
         map_option refcount (mem tree1 x) = map_option refcount (mem tree x)" for x
    using rotate_shape_fields_RIGHT [OF pn(1) nn' _ u, of x] p by simp
  have sh1: "tree_shape tree1 (rot_at RIGHT p t)"
    using t1(3,4) ds by (simp add: tree_shape_def nodes_rot_at)
  have p1: "p \<in> set (nodes (rot_at RIGHT p t))" using p by (simp add: nodes_rot_at)
  have "left gn \<noteq> Some p" by (rule other_child_RIGHT [OF sh g(1) gn])
  then have m1g: "mem tree1 g = Some (gn\<lparr>right := Some node\<rparr>)"
    using u(4) pn(2) gn by simp
  have r1: "root tree1 = root tree" using t1(5) pn(2) by simp
  have rc1: "node_color tree1 (root tree1) = Some BLACK"
    using rc r1 fields by (cases "root tree") (auto simp: node_color_def fld_def)
  from ins_rebalance_RIGHT [OF sh1 p1 u(1) _ u(2) _ m1g _ rc1] pn(2)
  obtain tree' t' where
    "rbt_ins_rebalance tree1 p RIGHT = Some tree'" "tree_shape tree' t'"
    "nodes t' = nodes (rot_at RIGHT p t)" "node_color tree' (root tree') = Some BLACK"
    "same_data tree1 tree'"
    by auto
  moreover have "same_data tree tree1" using fields t1(2) by (simp add: same_data_def)
  ultimately show ?thesis using t1(1) by (auto simp: nodes_rot_at intro: same_data_trans)
qed

lemma node_color_live:
  assumes "tree_shape tree t" "a \<in> set (nodes t)" "mem tree a = Some n"
    and "ptr = left n \<or> ptr = right n"
  shows "\<exists>c. node_color tree ptr = Some c"
proof (cases ptr)
  case None
  then show ?thesis by (simp add: node_color_def)
next
  case (Some u)
  with assms child_facts [of "mem tree" t a n u] obtain un where "mem tree u = Some un"
    by (auto simp: tree_shape_def)
  with Some show ?thesis by (simp add: node_color_def fld_def)
qed

lemma ins_recolor_ok:
  assumes "tree_shape tree t" "node \<in> set (nodes t)"
    and "node_color tree (root tree) = Some BLACK \<or> root tree = Some node"
  shows "\<exists>tree' t'. rbt_ins_recolor tree node = Some tree' \<and> tree_shape tree' t' \<and>
           nodes t' = nodes t \<and> node_color tree' (root tree') = Some BLACK \<and>
           same_data tree tree'"
  using assms
proof (induction "depth t node" arbitrary: tree node rule: less_induct)
  case less
  note sh = less.prems(1) and a = less.prems(2) and rc = less.prems(3)
  from sh have rt: "root tree = top t" and lk: "linked (mem tree) None t"
    and ds: "distinct (nodes t)"
    by (simp_all add: tree_shape_def)
  from linked_dom [OF lk a] obtain nn where nn: "mem tree node = Some nn" by blast
  show ?case
  proof (cases "parent nn")
    case None
    define tree' where "tree' = tree\<lparr>mem := (mem tree)(node \<mapsto> nn\<lparr>color := BLACK\<rparr>)\<rparr>"
    have run: "rbt_ins_recolor tree node = Some tree'"
      using nn None by (subst rbt_ins_recolor.simps) (simp add: fld_def store_def tree'_def)
    have "root tree = Some node" using root_facts [OF lk ds a nn] None rt by simp
    then have "node_color tree' (root tree') = Some BLACK"
      by (simp add: tree'_def node_color_def fld_def)
    moreover have "tree_shape tree' t" unfolding tree'_def by (rule tree_shape_recolor [OF sh nn])
    moreover have "same_data tree tree'" unfolding tree'_def by (rule same_data_recolor [OF nn])
    ultimately show ?thesis using run by blast
  next
    case (Some p)
    from parent_facts [OF lk ds a nn Some] obtain pn where
      p: "p \<in> set (nodes t)" "mem tree p = Some pn" "left pn = Some node \<or> right pn = Some node"
        "Suc (depth t p) = depth t node" "p \<noteq> node"
      by auto
    have "root tree \<noteq> Some node" using root_facts [OF lk ds a nn] Some rt by simp
    with rc have rb: "node_color tree (root tree) = Some BLACK" by simp
    show ?thesis
    proof (cases "color pn")
      case BLACK
      have "rbt_ins_recolor tree node = Some tree"
      proof (cases "parent pn")
        case None
        then show ?thesis using nn Some p(2) BLACK
          by (subst rbt_ins_recolor.simps) (simp add: fld_def node_color_def)
      next
        case g: (Some g)
        from parent_facts [OF lk ds p(1,2) g] obtain gn where "mem tree g = Some gn" by auto
        then show ?thesis using nn Some p(2) BLACK g
          by (subst rbt_ins_recolor.simps) (simp add: fld_def node_color_def)
      qed
      then show ?thesis using sh rb same_data_refl by blast
    next
      case RED
      have "parent pn \<noteq> None"
      proof
        assume "parent pn = None"
        then have "root tree = Some p" using root_facts [OF lk ds p(1,2)] rt by simp
        then show False using rb p(2) RED by (simp add: node_color_def fld_def)
      qed
      then obtain g where g: "parent pn = Some g" by auto
      from parent_facts [OF lk ds p(1,2) g] obtain gn where
        gg: "g \<in> set (nodes t)" "mem tree g = Some gn" "left gn = Some p \<or> right gn = Some p"
          "Suc (depth t g) = depth t p" "g \<noteq> p"
        by auto
      have gnode: "g \<noteq> node" using gg(4) p(4) by auto
      define uncle where "uncle = (if Some p = left gn then right gn else left gn)"
      have "uncle = left gn \<or> uncle = right gn" by (simp add: uncle_def)
      from node_color_live [OF sh gg(1,2) this] obtain uc where
        uc: "node_color tree uncle = Some uc"
        by blast
      have pc: "node_color tree (Some p) = Some RED"
        using p(2) RED by (simp add: node_color_def fld_def)
      have ucl: "node_color tree (right gn) = Some uc" if "Some p = left gn"
        using uc that by (simp add: uncle_def)
      have ucr: "node_color tree (left gn) = Some uc" if "Some p \<noteq> left gn"
        using uc that by (simp add: uncle_def)
      show ?thesis
      proof (cases "uc = RED")
        case True
        with uc obtain u un where u: "uncle = Some u" "mem tree u = Some un" "color un = RED"
          by (cases uncle) (auto simp: node_color_def fld_def)
        have ug: "left gn = Some u \<or> right gn = Some u" using u(1) by (auto simp: uncle_def split: if_splits)
        from child_facts [OF lk ds gg(1,2) ug] have
          uu: "u \<in> set (nodes t)" "parent un = Some g" "u \<noteq> g"
          using u(2) by auto
        have up: "u \<noteq> p"
        proof (cases "Some p = left gn")
          case True
          then have "right gn = Some u" using u(1) by (simp add: uncle_def)
          then show ?thesis using other_child_RIGHT [OF sh gg(1,2), of u] True by auto
        next
          case False
          then show ?thesis using u(1) by (auto simp: uncle_def)
        qed
        define tree1 where "tree1 = tree\<lparr>mem := (mem tree)(g \<mapsto> gn\<lparr>color := RED\<rparr>)\<rparr>"
        define tree2 where "tree2 = tree1\<lparr>mem := (mem tree1)(p \<mapsto> pn\<lparr>color := BLACK\<rparr>)\<rparr>"
        define tree3 where "tree3 = tree2\<lparr>mem := (mem tree2)(u \<mapsto> un\<lparr>color := BLACK\<rparr>)\<rparr>"
        have m1: "mem tree1 p = Some pn" using p(2) gg(5) by (simp add: tree1_def)
        have m2: "mem tree2 u = Some un" using u(2) uu(3) up by (simp add: tree2_def tree1_def)
        have sh3: "tree_shape tree3 t"
          unfolding tree3_def tree2_def tree1_def
          using m1 m2 gg(2)
          by (intro tree_shape_recolor sh) (simp_all add: tree1_def tree2_def)
        have sd3: "same_data tree tree3"
        proof -
          have "same_data tree tree1" unfolding tree1_def by (rule same_data_recolor [OF gg(2)])
          moreover have "same_data tree1 tree2" unfolding tree2_def by (rule same_data_recolor [OF m1])
          moreover have "same_data tree2 tree3" unfolding tree3_def by (rule same_data_recolor [OF m2])
          ultimately show ?thesis by (blast intro: same_data_trans)
        qed
        have step: "rbt_ins_recolor tree node = rbt_ins_recolor tree3 g"
        proof (cases "Some p = left gn")
          case pl: True
          then have ur: "right gn = Some u" using u(1) by (simp add: uncle_def)
          show ?thesis
            using nn Some p(2) g gg(2) pc ucl [OF pl] True pl [symmetric] ur m1 m2
            by (subst rbt_ins_recolor.simps)
               (simp add: fld_def store_def tree1_def tree2_def tree3_def)
        next
          case pl: False
          then have ul: "left gn = Some u" using u(1) by (simp add: uncle_def)
          show ?thesis
            using nn Some p(2) g gg(2) pc ucr [OF pl] True up ul m1 m2
            by (subst rbt_ins_recolor.simps)
               (simp add: fld_def store_def tree1_def tree2_def tree3_def)
        qed
        have rc3: "node_color tree3 (root tree3) = Some BLACK \<or> root tree3 = Some g"
        proof (cases "root tree")
          case None
          then show ?thesis by (simp add: tree3_def tree2_def tree1_def node_color_def)
        next
          case (Some r)
          from root_node [OF sh Some] obtain rn where rn: "mem tree r = Some rn" "parent rn = None"
            by auto
          have "r \<noteq> p" "r \<noteq> u" using rn p(2) g u(2) uu(2) by auto
          then show ?thesis using rb Some
            by (auto simp: tree3_def tree2_def tree1_def node_color_def fld_def)
        qed
        have "depth t g < depth t node" using gg(4) p(4) by simp
        from less.hyps [OF this sh3 gg(1) rc3] obtain tree' t' where
          "rbt_ins_recolor tree3 g = Some tree'" "tree_shape tree' t'" "nodes t' = nodes t"
          "node_color tree' (root tree') = Some BLACK" "same_data tree3 tree'"
          by blast
        then show ?thesis using step sd3 by (auto intro: same_data_trans)
      next
        case False
        show ?thesis
        proof (cases "Some p = left gn")
          case pl: True
          then have gl: "left gn = Some p" by simp
          show ?thesis
          proof (cases "Some node = left pn")
            case True
            then have nl: "left pn = Some node" by simp
            have "rbt_ins_recolor tree node = rbt_ins_rebalance tree node LEFT"
              using nn Some p(2) g gg(2) pc ucl [OF pl] False gl nl
              by (subst rbt_ins_recolor.simps) (simp add: fld_def)
            with ins_rebalance_LEFT [OF sh a nn Some p(2) g gg(2) gl rb]
            show ?thesis by simp
          next
            case nl: False
            then have nr: "right pn = Some node" using p(3) by auto
            have "rbt_ins_recolor tree node =
                    rotate tree p LEFT \<bind> (\<lambda>tree. rbt_ins_rebalance tree p LEFT)"
              using nn Some p(2) g gg(2) pc ucl [OF pl] False gl nl
              by (subst rbt_ins_recolor.simps) (simp add: fld_def)
            with ins_inside_LEFT [OF sh a nn Some p(2) g nr gg(2) gl rb]
            show ?thesis by auto
          qed
        next
          case pl: False
          then have gr: "right gn = Some p" using gg(3) by auto
          show ?thesis
          proof (cases "Some node = left pn")
            case True
            then have nl: "left pn = Some node" by simp
            have "rbt_ins_recolor tree node =
                    rotate tree p RIGHT \<bind> (\<lambda>tree. rbt_ins_rebalance tree p RIGHT)"
              using nn Some p(2) g gg(2) pc ucr [OF pl] False pl nl
              by (subst rbt_ins_recolor.simps) (simp add: fld_def)
            with ins_inside_RIGHT [OF sh a nn Some p(2) g nl gg(2) gr rb]
            show ?thesis by auto
          next
            case nl: False
            have "rbt_ins_recolor tree node = rbt_ins_rebalance tree node RIGHT"
              using nn Some p(2) g gg(2) pc ucr [OF pl] False pl nl
              by (subst rbt_ins_recolor.simps) (simp add: fld_def)
            with ins_rebalance_RIGHT [OF sh a nn Some p(2) g gg(2) gr rb]
            show ?thesis by simp
          qed
        qed
      qed
    qed
  qed
qed

subsection \<open>The descent\<close>

lemma top_ins_shape: "s \<noteq> Leaf \<Longrightarrow> top (ins_shape tree k b s) = top s"
  by (cases s) auto

lemma set_nodes_ins_shape: "set (nodes (ins_shape tree k b s)) = insert b (set (nodes s))"
  by (induction s) auto

lemma distinct_ins_shape:
  "distinct (nodes s) \<Longrightarrow> b \<notin> set (nodes s) \<Longrightarrow> distinct (nodes (ins_shape tree k b s))"
  by (induction s) (auto simp: set_nodes_ins_shape)

lemma insert_node_descent:
  assumes "linked (mem tree) par s" "distinct (nodes s)" "s \<noteq> Leaf"
    and nb: "mem tree b = Some nb" "contents nb = k" "left nb = None" "right nb = None"
    and "b \<notin> set (nodes s)"
  shows "\<exists>tree1. rbt_insert_node tree b (top s) = rbt_ins_recolor tree1 b \<and>
           linked (mem tree1) par (ins_shape tree k b s) \<and>
           root tree1 = root tree \<and> comp tree1 = comp tree \<and>
           (\<forall>a. a \<notin> set (nodes s) \<and> a \<noteq> b \<longrightarrow> mem tree1 a = mem tree a) \<and>
           same_fields (mem tree) (mem tree1)"
  using assms(1,2,3,8)
proof (induction s arbitrary: par)
  case Leaf
  then show ?case by simp
next
  case (Node l x r)
  from Node.prems(1) obtain nx where nx: "mem tree x = Some nx" "left nx = top l" "right nx = top r"
      "parent nx = par" "linked (mem tree) (Some x) l" "linked (mem tree) (Some x) r"
    by (auto simp: linked_Node)
  from Node.prems(2) have d: "distinct (nodes l)" "distinct (nodes r)" "x \<notin> set (nodes l)"
      "x \<notin> set (nodes r)" "set (nodes l) \<inter> set (nodes r) = {}"
    by auto
  from Node.prems(4) have bb: "b \<noteq> x" "b \<notin> set (nodes l)" "b \<notin> set (nodes r)" by auto
  have kx: "key tree x = contents nx" using nx by (simp add: key_def)
  show ?case
  proof (cases "comp tree k (contents nx) < 0")
    case True
    show ?thesis
    proof (cases l)
      case Leaf
      define tree1 where "tree1 = tree\<lparr>mem := (mem tree)(b \<mapsto> nb\<lparr>parent := Some x\<rparr>, x \<mapsto> nx\<lparr>left := Some b\<rparr>)\<rparr>"
      have run: "rbt_insert_node tree b (top (Node l x r)) = rbt_ins_recolor tree1 b"
        using nb nx True Leaf bb(1)
        by (subst rbt_insert_node.simps) (simp add: fld_def store_def tree1_def)
      have "linked (mem tree1) (Some x) r"
        using nx(6) bb d by (auto intro!: linked_frame [of "mem tree"] simp: tree1_def)
      then have "linked (mem tree1) par (Node (Node Leaf b Leaf) x r)"
        using nx nb bb by (simp add: linked_Node tree1_def)
      moreover have "same_fields (mem tree) (mem tree1)"
        using nb nx by (simp add: same_fields_def tree1_def)
      moreover have "\<forall>a. a \<notin> set (nodes (Node l x r)) \<and> a \<noteq> b \<longrightarrow> mem tree1 a = mem tree a"
        by (simp add: tree1_def)
      moreover have "root tree1 = root tree" "comp tree1 = comp tree" by (simp_all add: tree1_def)
      moreover have "ins_shape tree k b (Node l x r) = Node (Node Leaf b Leaf) x r"
        using True kx Leaf by simp
      ultimately show ?thesis using run by (intro exI [of _ tree1]) simp
    next
      case l: (Node ll y lr)
      then have tl: "top l = Some y" "l \<noteq> Leaf" by simp_all
      have step: "rbt_insert_node tree b (top (Node l x r)) = rbt_insert_node tree b (top l)"
        using nb nx True tl
        by (subst rbt_insert_node.simps) (simp add: fld_def)
      from Node.IH(1) [OF nx(5) d(1) tl(2) bb(2)] obtain tree1 where
        t1: "rbt_insert_node tree b (top l) = rbt_ins_recolor tree1 b"
          "linked (mem tree1) (Some x) (ins_shape tree k b l)"
          "root tree1 = root tree" "comp tree1 = comp tree"
          "\<forall>a. a \<notin> set (nodes l) \<and> a \<noteq> b \<longrightarrow> mem tree1 a = mem tree a"
          "same_fields (mem tree) (mem tree1)"
        by blast
      have "linked (mem tree1) (Some x) r"
        using nx(6) bb d t1(5) by (auto intro!: linked_frame [of "mem tree"])
      moreover have "mem tree1 x = Some nx" using t1(5) d bb nx by simp
      ultimately have "linked (mem tree1) par (Node (ins_shape tree k b l) x r)"
        using t1(2) nx tl by (simp add: linked_Node top_ins_shape)
      then show ?thesis using step t1 True kx by auto
    qed
  next
    case False
    show ?thesis
    proof (cases r)
      case Leaf
      define tree1 where "tree1 = tree\<lparr>mem := (mem tree)(b \<mapsto> nb\<lparr>parent := Some x\<rparr>, x \<mapsto> nx\<lparr>right := Some b\<rparr>)\<rparr>"
      have run: "rbt_insert_node tree b (top (Node l x r)) = rbt_ins_recolor tree1 b"
        using nb nx False Leaf bb(1)
        by (subst rbt_insert_node.simps) (simp add: fld_def store_def tree1_def)
      have "linked (mem tree1) (Some x) l"
        using nx(5) bb d by (auto intro!: linked_frame [of "mem tree"] simp: tree1_def)
      then have "linked (mem tree1) par (Node l x (Node Leaf b Leaf))"
        using nx nb bb by (simp add: linked_Node tree1_def)
      moreover have "same_fields (mem tree) (mem tree1)"
        using nb nx by (simp add: same_fields_def tree1_def)
      moreover have "\<forall>a. a \<notin> set (nodes (Node l x r)) \<and> a \<noteq> b \<longrightarrow> mem tree1 a = mem tree a"
        by (simp add: tree1_def)
      moreover have "root tree1 = root tree" "comp tree1 = comp tree" by (simp_all add: tree1_def)
      moreover have "ins_shape tree k b (Node l x r) = Node l x (Node Leaf b Leaf)"
        using False kx Leaf by simp
      ultimately show ?thesis using run by (intro exI [of _ tree1]) simp
    next
      case r: (Node rl y rr)
      then have tr: "top r = Some y" "r \<noteq> Leaf" by simp_all
      have step: "rbt_insert_node tree b (top (Node l x r)) = rbt_insert_node tree b (top r)"
        using nb nx False tr
        by (subst rbt_insert_node.simps) (simp add: fld_def)
      from Node.IH(2) [OF nx(6) d(2) tr(2) bb(3)] obtain tree1 where
        t1: "rbt_insert_node tree b (top r) = rbt_ins_recolor tree1 b"
          "linked (mem tree1) (Some x) (ins_shape tree k b r)"
          "root tree1 = root tree" "comp tree1 = comp tree"
          "\<forall>a. a \<notin> set (nodes r) \<and> a \<noteq> b \<longrightarrow> mem tree1 a = mem tree a"
          "same_fields (mem tree) (mem tree1)"
        by blast
      have "linked (mem tree1) (Some x) l"
        using nx(5) bb d t1(5) by (auto intro!: linked_frame [of "mem tree"])
      moreover have "mem tree1 x = Some nx" using t1(5) d bb nx by simp
      ultimately have "linked (mem tree1) par (Node l x (ins_shape tree k b r))"
        using t1(2) nx tr by (simp add: linked_Node top_ins_shape)
      then show ?thesis using step t1 False kx by auto
    qed
  qed
qed

lemma comparator_flip': "total_order_comparator c \<Longrightarrow> 0 \<le> c a b \<Longrightarrow> c b a \<le> 0"
  unfolding total_order_comparator_def
  by (metis less_irrefl linorder_neqE_linordered_idom not_le order_less_imp_le)

lemma comparator_lt_le:
  assumes c: "total_order_comparator c" and "c a b < 0" "c b d \<le> 0"
  shows "c a d < 0"
proof (rule ccontr)
  assume "\<not> c a d < 0"
  then have "c d a \<le> 0" using comparator_flip' [OF c, of a d] by simp
  then have "c b a \<le> 0" using comparator_trans [OF c assms(3)] by simp
  then have "0 \<le> c a b" by (rule comparator_flip [OF c])
  with assms(2) show False by simp
qed

lemma comparator_ge_le:
  assumes c: "total_order_comparator c" and "0 \<le> c k b" "c a b \<le> 0"
  shows "0 \<le> c k a"
proof -
  have "c b k \<le> 0" using comparator_flip' [OF c assms(2)] .
  then have "c a k \<le> 0" using comparator_trans [OF c assms(3)] by simp
  then show ?thesis by (rule comparator_flip [OF c])
qed

lemma ins_shape_nodes:
  assumes c: "total_order_comparator (comp tree)"
    and "sorted_wrt (\<lambda>a b. comp tree (key tree a) (key tree b) \<le> 0) (nodes s)"
  shows "\<exists>xs ys. nodes s = xs @ ys \<and> nodes (ins_shape tree k b s) = xs @ b # ys \<and>
           (\<forall>a \<in> set xs. 0 \<le> comp tree k (key tree a)) \<and>
           (\<forall>a \<in> set ys. comp tree k (key tree a) < 0)"
  using assms(2)
proof (induction s)
  case Leaf
  show ?case by simp
next
  case (Node l x r)
  from Node.prems have
    sl: "sorted_wrt (\<lambda>a b. comp tree (key tree a) (key tree b) \<le> 0) (nodes l)" and
    sr: "sorted_wrt (\<lambda>a b. comp tree (key tree a) (key tree b) \<le> 0) (nodes r)" and
    lx: "\<forall>a \<in> set (nodes l). comp tree (key tree a) (key tree x) \<le> 0" and
    xr: "\<forall>b \<in> set (nodes r). comp tree (key tree x) (key tree b) \<le> 0"
    by (auto simp: sorted_wrt_append)
  show ?case
  proof (cases "comp tree k (key tree x) < 0")
    case True
    from Node.IH(1) [OF sl] obtain xs ys where
      *: "nodes l = xs @ ys" "nodes (ins_shape tree k b l) = xs @ b # ys"
        "\<forall>a \<in> set xs. 0 \<le> comp tree k (key tree a)"
        "\<forall>a \<in> set ys. comp tree k (key tree a) < 0"
      by blast
    have "\<forall>a \<in> set (ys @ x # nodes r). comp tree k (key tree a) < 0"
      using * True xr comparator_lt_le [OF c True] by auto
    then show ?thesis using * True
      by (intro exI [of _ xs] exI [of _ "ys @ x # nodes r"]) simp
  next
    case False
    then have ge: "0 \<le> comp tree k (key tree x)" by simp
    from Node.IH(2) [OF sr] obtain xs ys where
      *: "nodes r = xs @ ys" "nodes (ins_shape tree k b r) = xs @ b # ys"
        "\<forall>a \<in> set xs. 0 \<le> comp tree k (key tree a)"
        "\<forall>a \<in> set ys. comp tree k (key tree a) < 0"
      by blast
    have "\<forall>a \<in> set (nodes l @ x # xs). 0 \<le> comp tree k (key tree a)"
      using * ge lx comparator_ge_le [OF c ge] by auto
    then show ?thesis using * False
      by (intro exI [of _ "nodes l @ x # xs"] exI [of _ ys]) simp
  qed
qed

lemma key_cong:
  "map_option contents (mem t2 a) = map_option contents (mem t1 a) \<Longrightarrow> key t2 a = key t1 a"
  by (cases "mem t1 a"; cases "mem t2 a") (auto simp: key_def)

lemma sorted_wrt_insert_mid:
  assumes "sorted_wrt P (xs @ ys)" "\<forall>x \<in> set xs. P x b" "\<forall>y \<in> set ys. P b y"
  shows "sorted_wrt P (xs @ b # ys)"
  using assms by (auto simp: sorted_wrt_append)

lemma rbt_insert_wf:
  assumes wf: "rbt_wf tree t" and c: "total_order_comparator (comp tree)"
    and fresh: "mem tree blk = None"
  shows "\<exists>tree' t' xs ys. rbt_insert tree k blk = Some (blk, tree') \<and> rbt_wf tree' t' \<and>
           comp tree' = comp tree \<and>
           nodes t = xs @ ys \<and> nodes t' = xs @ blk # ys \<and> blk \<notin> set (nodes t) \<and>
           key tree' blk = k \<and> (\<forall>a \<in> set (nodes t). key tree' a = key tree a) \<and>
           (\<forall>a \<in> set xs. 0 \<le> comp tree k (key tree a)) \<and>
           (\<forall>a \<in> set ys. comp tree k (key tree a) < 0)"
proof -
  from wf have sh: "tree_shape tree t" and ord: "ordered tree t"
    and rb: "node_color tree (root tree) = Some BLACK"
    by (simp_all add: rbt_wf_def)
  from sh have rt: "root tree = top t" and lk: "linked (mem tree) None t"
    and ds: "distinct (nodes t)"
    by (simp_all add: tree_shape_def)
  have bt: "blk \<notin> set (nodes t)" using linked_dom [OF lk, of blk] fresh by auto
  define nb where "nb = \<lparr>refcount = 1, p_finalize = Some Fn_rbt_node_free, left = None,
       right = None, parent = None, color = RED, contents = k\<rparr>"
  define tree0 where "tree0 = tree\<lparr>mem := (mem tree)(blk \<mapsto> nb)\<rparr>"
  have new: "rbt_node_new k blk (mem tree) = Some (blk, mem tree0)"
    using fresh by (simp add: rbt_node_new_def mem_allocate_def tree0_def nb_def)
  have ins: "rbt_insert tree k blk =
               rbt_insert_node tree0 blk (root tree) \<bind> (\<lambda>tree. Some (blk, tree))"
    using new by (simp add: rbt_insert_def tree0_def)
  have m0: "mem tree0 blk = Some nb" by (simp add: tree0_def)
  have old0: "mem tree0 a = mem tree a" if "a \<noteq> blk" for a using that by (simp add: tree0_def)
  have key0: "key tree0 a = key tree a" if "a \<in> set (nodes t)" for a
  proof -
    have "a \<noteq> blk" using that bt by auto
    then show ?thesis using old0 [of a] by (simp add: key_def)
  qed
  have keyb: "key tree0 blk = k" by (simp add: key_def tree0_def nb_def)
  have c0: "comp tree0 = comp tree" by (simp add: tree0_def)
  have lk0: "linked (mem tree0) None t"
    using lk bt by (auto intro!: linked_frame [of "mem tree"] simp: tree0_def)
  have ord0: "sorted_wrt (\<lambda>a b. comp tree0 (key tree0 a) (key tree0 b) \<le> 0) (nodes t)"
  proof -
    have "sorted_wrt (\<lambda>a b. comp tree (key tree a) (key tree b) \<le> 0) (nodes t)"
      using ord by (simp add: ordered_def)
    then show ?thesis
      by (rule sorted_wrt_mono_rel [rotated]) (simp add: key0 c0)
  qed
  from ins_shape_nodes [of tree0 t k blk] c c0 ord0 obtain xs ys where
    xy: "nodes t = xs @ ys" "nodes (ins_shape tree0 k blk t) = xs @ blk # ys"
      "\<forall>a \<in> set xs. 0 \<le> comp tree0 k (key tree0 a)"
      "\<forall>a \<in> set ys. comp tree0 k (key tree0 a) < 0"
    by auto
  define t1 where "t1 = ins_shape tree0 k blk t"
  have d1: "distinct (nodes t1)" unfolding t1_def by (rule distinct_ins_shape [OF ds bt])
  have "\<exists>tree1. rbt_insert_node tree0 blk (root tree) = rbt_ins_recolor tree1 blk \<and>
          tree_shape tree1 t1 \<and> comp tree1 = comp tree \<and>
          same_fields (mem tree0) (mem tree1) \<and>
          (node_color tree1 (root tree1) = Some BLACK \<or> root tree1 = Some blk)"
  proof (cases t)
    case Leaf
    define tree1 where "tree1 = tree0\<lparr>root := Some blk\<rparr>"
    have "rbt_insert_node tree0 blk (root tree) = rbt_ins_recolor tree1 blk"
      using rt Leaf by (subst rbt_insert_node.simps) (simp add: tree1_def)
    moreover have "tree_shape tree1 t1"
      using Leaf m0 by (simp add: tree_shape_def t1_def tree1_def linked_Node nb_def)
    moreover have "same_fields (mem tree0) (mem tree1)" by (simp add: same_fields_def tree1_def)
    ultimately show ?thesis using c0 by (intro exI [of _ tree1]) (simp add: tree1_def)
  next
    case (Node l x r)
    then have nl: "t \<noteq> Leaf" by simp
    from insert_node_descent [OF lk0 ds nl m0 _ _ _ bt, of k] obtain tree1 where
      t1': "rbt_insert_node tree0 blk (top t) = rbt_ins_recolor tree1 blk"
        "linked (mem tree1) None (ins_shape tree0 k blk t)"
        "root tree1 = root tree0" "comp tree1 = comp tree0"
        "same_fields (mem tree0) (mem tree1)"
      by (auto simp: nb_def)
    have r1: "root tree1 = Some x" using t1'(3) rt Node by (simp add: tree0_def)
    have "tree_shape tree1 t1"
      using t1'(2) d1 r1 Node by (simp add: tree_shape_def t1_def top_ins_shape)
    moreover have "node_color tree1 (root tree1) = Some BLACK"
    proof -
      have "x \<noteq> blk" using bt Node by auto
      then have "map_option color (mem tree1 x) = map_option color (mem tree x)"
        using t1'(5) old0 [of x] by (simp add: same_fields_def)
      then show ?thesis using rb rt Node r1 by (simp add: node_color_def fld_def)
    qed
    ultimately show ?thesis using t1' rt c0 by (intro exI [of _ tree1]) simp
  qed
  then obtain tree1 where
    t1: "rbt_insert_node tree0 blk (root tree) = rbt_ins_recolor tree1 blk"
      "tree_shape tree1 t1" "comp tree1 = comp tree" "same_fields (mem tree0) (mem tree1)"
      "node_color tree1 (root tree1) = Some BLACK \<or> root tree1 = Some blk"
    by blast
  have b1: "blk \<in> set (nodes t1)" by (simp add: t1_def set_nodes_ins_shape)
  from ins_recolor_ok [OF t1(2) b1 t1(5)] obtain tree' t' where
    t': "rbt_ins_recolor tree1 blk = Some tree'" "tree_shape tree' t'" "nodes t' = nodes t1"
      "node_color tree' (root tree') = Some BLACK" "same_data tree1 tree'"
    by blast
  have key': "key tree' a = key tree0 a" for a
  proof -
    have "map_option contents (mem tree' a) = map_option contents (mem tree0 a)"
      using t'(5) t1(4) by (simp add: same_data_def same_fields_def)
    then show ?thesis by (rule key_cong)
  qed
  have c': "comp tree' = comp tree" using t'(5) t1(3) by (simp add: same_data_def)
  have n': "nodes t' = xs @ blk # ys" using t'(3) xy(2) by (simp add: t1_def)
  have "ordered tree' t'"
  proof -
    have "sorted_wrt (\<lambda>a b. comp tree0 (key tree0 a) (key tree0 b) \<le> 0) (xs @ blk # ys)"
    proof (rule sorted_wrt_insert_mid)
      show "sorted_wrt (\<lambda>a b. comp tree0 (key tree0 a) (key tree0 b) \<le> 0) (xs @ ys)"
        using ord0 xy(1) by simp
      show "\<forall>x \<in> set xs. comp tree0 (key tree0 x) (key tree0 blk) \<le> 0"
        using xy(3) comparator_flip' [of "comp tree0"] c c0 keyb by auto
      show "\<forall>y \<in> set ys. comp tree0 (key tree0 blk) (key tree0 y) \<le> 0"
        using xy(4) keyb by auto
    qed
    then show ?thesis by (simp add: ordered_def n' key' c' c0)
  qed
  then have "rbt_wf tree' t'" using t'(2,4) by (simp add: rbt_wf_def)
  moreover have "rbt_insert tree k blk = Some (blk, tree')" using ins t1(1) t'(1) by simp
  moreover have "\<forall>a \<in> set (nodes t). key tree' a = key tree a" using key' key0 by simp
  moreover have "key tree' blk = k" using key' keyb by simp
  moreover have "\<forall>a \<in> set xs. 0 \<le> comp tree k (key tree a)"
    using xy(1,3) key0 c0 by auto
  moreover have "\<forall>a \<in> set ys. comp tree k (key tree a) < 0"
    using xy(1,4) key0 c0 by auto
  ultimately show ?thesis using c' xy(1) n' bt by blast
qed

lemma rbt_new_wf: "rbt_wf (rbt_new comparator) Leaf"
  by (simp add: rbt_wf_def tree_shape_def ordered_def rbt_new_def node_color_def)

lemma rbt_insert_Some_fresh:
  assumes "rbt_insert tree v b = Some r"
  shows "mem tree b = None"
proof (rule ccontr)
  assume "mem tree b \<noteq> None"
  then have "rbt_node_new v b (mem tree) = None"
    by (auto simp: rbt_node_new_def mem_allocate_def)
  then show False using assms by (simp add: rbt_insert_def)
qed

lemma rbt_run_inserts_wf:
  assumes "rbt_wf tree t" "total_order_comparator (comp tree)"
    and "rbt_run tree (map (\<lambda>(v, b). Insert v b) ins) = Some tree'"
  shows "\<exists>t'. rbt_wf tree' t' \<and> comp tree' = comp tree \<and>
           set (nodes t') = set (nodes t) \<union> snd ` set ins \<and>
           (\<forall>a \<in> set (nodes t). key tree' a = key tree a) \<and>
           (\<forall>(v, a) \<in> set ins. key tree' a = v)"
  using assms
proof (induction ins arbitrary: tree t)
  case Nil
  then show ?case by auto
next
  case (Cons vb rest)
  obtain v b where vb: "vb = (v, b)" by (cases vb)
  from Cons.prems(3) vb obtain r where
    r: "rbt_insert tree v b = Some r"
      "rbt_run (snd r) (map (\<lambda>(v, b). Insert v b) rest) = Some tree'"
    by (auto simp: bind_eq_Some_conv)
  have fresh: "mem tree b = None" by (rule rbt_insert_Some_fresh [OF r(1)])
  from rbt_insert_wf [OF Cons.prems(1,2) fresh, of v] r(1) obtain t1 xs ys where
    t1: "rbt_wf (snd r) t1" "comp (snd r) = comp tree" "nodes t = xs @ ys"
      "nodes t1 = xs @ b # ys" "b \<notin> set (nodes t)" "key (snd r) b = v"
      "\<forall>a \<in> set (nodes t). key (snd r) a = key tree a"
    by auto
  have c1: "total_order_comparator (comp (snd r))" using t1(2) Cons.prems(2) by simp
  from Cons.IH [OF t1(1) c1 r(2)] obtain t' where
    t': "rbt_wf tree' t'" "comp tree' = comp (snd r)"
      "set (nodes t') = set (nodes t1) \<union> snd ` set rest"
      "\<forall>a \<in> set (nodes t1). key tree' a = key (snd r) a"
      "\<forall>(v, a) \<in> set rest. key tree' a = v"
    by blast
  have "set (nodes t') = set (nodes t) \<union> snd ` set (vb # rest)"
    using t'(3) t1(3,4) vb by auto
  moreover have "\<forall>a \<in> set (nodes t). key tree' a = key tree a"
    using t'(4) t1(3,4,7) by auto
  moreover have "\<forall>(v, a) \<in> set (vb # rest). key tree' a = v"
    using t'(4,5) t1(4,6) vb by auto
  ultimately show ?case using t'(1,2) t1(2) by (intro exI [of _ t']) simp
qed

text \<open>
  C2, amended: for a tree built from \<open>rbt_new\<close> by calls of \<open>rbt_insert\<close> alone, with a
  comparator that is a total order, \<open>rbt_lookup\<close> of \<open>k\<close> returns a node that was inserted
  with a key comparator-equal to \<open>k\<close> (with duplicates not necessarily the one inserted
  last), and it returns \<open>NULL\<close> exactly when no key comparator-equal to \<open>k\<close> was inserted.
\<close>

theorem rbt_lookup_finds_inserted:
  assumes "total_order_comparator (comp (rbt_new comparator))"
    and "rbt_run (rbt_new comparator) (map (\<lambda>(v, b). Insert v b) ins) = Some tree"
  shows "(\<exists>a v. rbt_lookup tree k = Some (Some a) \<and> (v, a) \<in> set ins \<and> comp tree k v = 0) \<or>
         (rbt_lookup tree k = Some None \<and> (\<forall>(v, a) \<in> set ins. comp tree k v \<noteq> 0))"
proof -
  from rbt_run_inserts_wf [OF rbt_new_wf assms] obtain t where
    t: "rbt_wf tree t" "comp tree = comp (rbt_new comparator)"
      "set (nodes t) = snd ` set ins" "\<forall>(v, a) \<in> set ins. key tree a = v"
    by auto
  have c: "total_order_comparator (comp tree)" using t(2) assms(1) by simp
  from t(1) have rt: "root tree = top t" and lk: "linked (mem tree) None t"
    and so: "sorted_wrt (\<lambda>a b. comp tree (key tree a) (key tree b) \<le> 0) (nodes t)"
    by (simp_all add: rbt_wf_def tree_shape_def ordered_def)
  from rbt_lookup_node_sorted [OF c lk so, of k]
  show ?thesis
  proof (elim disjE exE conjE)
    fix a
    assume a: "rbt_lookup_node tree (top t) k = Some (Some a)" "a \<in> set (nodes t)"
      "comp tree k (key tree a) = 0"
    from a(2) t(3) obtain v where v: "(v, a) \<in> set ins" by auto
    with t(4) have "key tree a = v" by auto
    with a v show ?thesis by (auto simp: rbt_lookup_def rt)
  next
    assume n: "rbt_lookup_node tree (top t) k = Some None"
      "\<forall>a \<in> set (nodes t). comp tree k (key tree a) \<noteq> 0"
    have "\<forall>(v, a) \<in> set ins. comp tree k v \<noteq> 0"
    proof (clarify)
      fix v a assume va: "(v, a) \<in> set ins" and z: "comp tree k v = 0"
      then have "a \<in> set (nodes t)" "key tree a = v" using t(3,4) by force+
      with n(2) z show False by auto
    qed
    with n(1) show ?thesis by (simp add: rbt_lookup_def rt)
  qed
qed

theorem rbt_lookup_finds_inserted_witness:
  "total_order_comparator (comp (rbt_new (Some unbox_comparator))) \<and>
   (case rbt_run (rbt_new (Some unbox_comparator)) (map (\<lambda>(v, b). Insert v b) [(1, 1), (1, 2), (5, 3)]) of
      None \<Rightarrow> False
    | Some tree \<Rightarrow> rbt_lookup tree 1 = Some (Some 2) \<and> rbt_lookup tree 7 = Some None)"
proof -
  have h1: "total_order_comparator (comp (rbt_new (Some unbox_comparator)))"
    by (simp add: rbt_new_def unbox_comparator_total)
  have e: "(case rbt_run (rbt_new (Some unbox_comparator)) (map (\<lambda>(v, b). Insert v b) [(1, 1), (1, 2), (5, 3)]) of
      None \<Rightarrow> False
    | Some tree \<Rightarrow> rbt_lookup tree 1 = Some (Some 2) \<and> rbt_lookup tree 7 = Some None)"
    by code_simp
  then obtain tree where
    h2: "rbt_run (rbt_new (Some unbox_comparator)) (map (\<lambda>(v, b). Insert v b) [(1, 1), (1, 2), (5, 3)])
           = Some tree"
    by (cases "rbt_run (rbt_new (Some unbox_comparator)) (map (\<lambda>(v, b). Insert v b) [(1, 1), (1, 2), (5, 3)])")
       auto
  show ?thesis
    using h1 e rbt_lookup_finds_inserted [OF h1 h2, of 7] by simp
qed

text \<open>
  C9: in a well-formed tree (shape linked, ordered, root black) with a total-order
  comparator, \<open>rbt_insert\<close> of a key \<open>k\<close> into a fresh block always returns a new node and
  a well-formed tree: the new node is linked into the in-order traversal, every node
  that was in the tree is still there with its key, and every node whose key is
  comparator-equal to \<open>k\<close> stands before the new node (the new node went to its right);
  only nodes with a greater key stand after it. So an insert of an existing key neither
  replaces a node nor is rejected: the tree has one node more after each call.
\<close>

theorem rbt_insert_duplicate_adds_node:
  assumes "rbt_wf tree t" "total_order_comparator (comp tree)" "mem tree blk = None"
  shows "\<exists>tree' t' xs ys. rbt_insert tree k blk = Some (blk, tree') \<and> rbt_wf tree' t' \<and>
           nodes t = xs @ ys \<and> nodes t' = xs @ blk # ys \<and> blk \<notin> set (nodes t) \<and>
           key tree' blk = k \<and>
           (\<forall>a \<in> set (nodes t). a \<in> set (nodes t') \<and> key tree' a = key tree a) \<and>
           (\<forall>d \<in> set (nodes t). comp tree k (key tree d) = 0 \<longrightarrow> d \<in> set xs) \<and>
           (\<forall>a \<in> set ys. comp tree k (key tree a) < 0)"
proof -
  from rbt_insert_wf [OF assms, of k] obtain tree' t' xs ys where
    *: "rbt_insert tree k blk = Some (blk, tree')" "rbt_wf tree' t'"
      "nodes t = xs @ ys" "nodes t' = xs @ blk # ys" "blk \<notin> set (nodes t)"
      "key tree' blk = k" "\<forall>a \<in> set (nodes t). key tree' a = key tree a"
      "\<forall>a \<in> set ys. comp tree k (key tree a) < 0"
    by blast
  have "\<forall>a \<in> set (nodes t). a \<in> set (nodes t') \<and> key tree' a = key tree a"
    using *(3,4,7) by auto
  moreover have "\<forall>d \<in> set (nodes t). comp tree k (key tree d) = 0 \<longrightarrow> d \<in> set xs"
    using *(3,8) by auto
  ultimately show ?thesis using *(1-6,8) by blast
qed

theorem rbt_insert_duplicate_adds_node_witness:
  "rbt_wf example_tree example_shape \<and> total_order_comparator (comp example_tree) \<and>
   mem example_tree 4 = None \<and> 1 \<in> set (nodes example_shape) \<and>
   comp example_tree 20 (key example_tree 1) = 0 \<and>
   (\<exists>tree' t'. rbt_insert example_tree 20 4 = Some (4, tree') \<and> rbt_wf tree' t' \<and>
      length (nodes t') = 4 \<and> 1 \<in> set (nodes t') \<and> 4 \<in> set (nodes t') \<and>
      key tree' 4 = 20 \<and> key tree' 1 = 20)"
proof -
  have h1: "rbt_wf example_tree example_shape"
    by (simp add: rbt_wf_def tree_shape_def ordered_def example_tree_def example_shape_def
          linked.simps key_def unbox_comparator_def node_color_def fld_def)
  have h2: "total_order_comparator (comp example_tree)"
    by (simp add: example_tree_def unbox_comparator_total)
  have h3: "mem example_tree 4 = None" by (simp add: example_tree_def)
  have h4: "1 \<in> set (nodes example_shape)" "comp example_tree 20 (key example_tree 1) = 0"
    "key example_tree 1 = 20"
    by (simp_all add: example_shape_def example_tree_def key_def unbox_comparator_def)
  from rbt_insert_duplicate_adds_node [OF h1 h2 h3, of 20] obtain tree' t' xs ys where
    *: "rbt_insert example_tree 20 4 = Some (4, tree')" "rbt_wf tree' t'"
      "nodes example_shape = xs @ ys" "nodes t' = xs @ 4 # ys" "key tree' 4 = 20"
      "\<forall>a \<in> set (nodes example_shape). a \<in> set (nodes t') \<and> key tree' a = key example_tree a"
    by blast
  have "length (nodes t') = 4"
  proof -
    have "length (xs @ ys) = 3" unfolding *(3) [symmetric] by (simp add: example_shape_def)
    then show ?thesis using *(4) by simp
  qed
  moreover have "1 \<in> set (nodes t')" "key tree' 1 = 20" using *(6) h4 by auto
  moreover have "4 \<in> set (nodes t')" using *(4) by simp
  ultimately show ?thesis using h1 h2 h3 h4 * by blast
qed

end
